theory Spec2Isabelle
  imports Complex_Main
begin

section \<open>Values of the parsed documents\<close>

text \<open>
  Both inputs of the script are the results of \<open>json.load\<close>: \<open>None\<close>, booleans, integers,
  floats, strings, lists, and dictionaries with string keys.  A finite float is the rational
  number it denotes (the program only tests floats for truth and compares them as dictionary
  keys); \<open>NaN\<close> and the infinities, which are not JSON, are left out.  A dictionary is the
  association list of its items in insertion order; \<open>json.load\<close> never yields a key twice, and
  the list is read through \<open>map_of\<close>.  Strings are lists of characters; a code point outside
  ASCII is the sequence of its UTF-8 bytes, none of which is an ASCII character, so that
  scanning for braces, searching for a substring and replacing one give on the bytes what
  Python gives on the code points.  The interpreter's recursion limit is not modelled.
\<close>

datatype json =
    JNull
  | JBool bool
  | JInt int
  | JFloat rat
  | JStr string
  | JArr "json list"
  | JObj "(string \<times> json) list"

text \<open>The exceptions the two functions can raise.\<close>

datatype pyerr = KeyError | TypeError | AttributeError

section \<open>The operations of Python the source uses\<close>

text \<open>\<open>s.startswith(p)\<close> and the substring test \<open>p in s\<close> on strings.\<close>

fun startswith :: "string \<Rightarrow> string \<Rightarrow> bool" where
  "startswith [] s = True"
| "startswith (p # ps) [] = False"
| "startswith (p # ps) (c # cs) = (p = c \<and> startswith ps cs)"

fun str_contains :: "string \<Rightarrow> string \<Rightarrow> bool" where
  "str_contains p [] = (p = [])"
| "str_contains p (c # cs) = (startswith p (c # cs) \<or> str_contains p cs)"

text \<open>
  \<open>k in x\<close> for a string \<open>k\<close>: key membership on a dictionary, element membership on a
  list, substring test on a string, and \<open>TypeError\<close> on \<open>None\<close>, booleans and numbers
  (they are not iterable).
\<close>

fun py_in :: "string \<Rightarrow> json \<Rightarrow> pyerr + bool" where
  "py_in k (JObj d) = Inr (map_of d k \<noteq> None)"
| "py_in k (JArr xs) = Inr (JStr k \<in> set xs)"
| "py_in k (JStr s) = Inr (str_contains k s)"
| "py_in k JNull = Inl TypeError"
| "py_in k (JBool b) = Inl TypeError"
| "py_in k (JInt i) = Inl TypeError"
| "py_in k (JFloat r) = Inl TypeError"

text \<open>
  \<open>x[k]\<close> for a string \<open>k\<close>: \<open>KeyError\<close> on a dictionary without the key, \<open>TypeError\<close> on
  everything that is not a dictionary (list and string indices must be integers, the other
  values are not subscriptable).
\<close>

fun py_getitem :: "json \<Rightarrow> string \<Rightarrow> pyerr + json" where
  "py_getitem (JObj d) k = (case map_of d k of None \<Rightarrow> Inl KeyError | Some v \<Rightarrow> Inr v)"
| "py_getitem (JArr xs) k = Inl TypeError"
| "py_getitem (JStr s) k = Inl TypeError"
| "py_getitem JNull k = Inl TypeError"
| "py_getitem (JBool b) k = Inl TypeError"
| "py_getitem (JInt i) k = Inl TypeError"
| "py_getitem (JFloat r) k = Inl TypeError"

text \<open>\<open>x.get(k, default)\<close>: only dictionaries have the method.\<close>

fun py_get :: "json \<Rightarrow> string \<Rightarrow> json \<Rightarrow> pyerr + json" where
  "py_get (JObj d) k dflt = Inr (case map_of d k of None \<Rightarrow> dflt | Some v \<Rightarrow> v)"
| "py_get (JArr xs) k dflt = Inl AttributeError"
| "py_get (JStr s) k dflt = Inl AttributeError"
| "py_get JNull k dflt = Inl AttributeError"
| "py_get (JBool b) k dflt = Inl AttributeError"
| "py_get (JInt i) k dflt = Inl AttributeError"
| "py_get (JFloat r) k dflt = Inl AttributeError"

text \<open>\<open>isinstance(x, list)\<close> and the truth value of \<open>x\<close> in a condition.\<close>

fun isinstance_list :: "json \<Rightarrow> bool" where
  "isinstance_list (JArr xs) = True"
| "isinstance_list x = False"

fun truthy :: "json \<Rightarrow> bool" where
  "truthy JNull = False"
| "truthy (JBool b) = b"
| "truthy (JInt i) = (i \<noteq> 0)"
| "truthy (JFloat r) = (r \<noteq> 0)"
| "truthy (JStr s) = (s \<noteq> [])"
| "truthy (JArr xs) = (xs \<noteq> [])"
| "truthy (JObj d) = (d \<noteq> [])"

subsection \<open>The dictionary the script builds\<close>

text \<open>
  \<open>variable_map\<close> is keyed by whatever the entries carry under \<open>'key'\<close>.  Lists and
  dictionaries are unhashable; the other values are compared as Python compares keys:
  booleans and numbers by their numeric value (\<open>True == 1 == 1.0\<close>), \<open>None\<close> and strings
  with themselves only.
\<close>

fun hashable :: "json \<Rightarrow> bool" where
  "hashable (JArr xs) = False"
| "hashable (JObj d) = False"
| "hashable x = True"

fun num_val :: "json \<Rightarrow> rat option" where
  "num_val (JBool b) = Some (if b then 1 else 0)"
| "num_val (JInt i) = Some (of_int i)"
| "num_val (JFloat r) = Some r"
| "num_val x = None"

definition py_eq :: "json \<Rightarrow> json \<Rightarrow> bool" where
  "py_eq a b =
     (case num_val a of
        Some x \<Rightarrow> (case num_val b of Some y \<Rightarrow> x = y | None \<Rightarrow> False)
      | None \<Rightarrow> (case num_val b of Some y \<Rightarrow> False | None \<Rightarrow> a = b))"

type_synonym pydict = "(json \<times> json) list"

text \<open>\<open>d[k]\<close> read as an option, for a hashable \<open>k\<close>; \<open>k in d\<close> is \<open>dict_lookup d k \<noteq> None\<close>.\<close>

fun dict_lookup :: "pydict \<Rightarrow> json \<Rightarrow> json option" where
  "dict_lookup [] k = None"
| "dict_lookup ((k', v') # d) k = (if py_eq k' k then Some v' else dict_lookup d k)"

text \<open>
  \<open>d[k] = v\<close>: an equal key keeps its place and its first spelling and takes the new value,
  a new key goes to the end, an unhashable key raises \<open>TypeError\<close>.
\<close>

fun dict_store :: "pydict \<Rightarrow> json \<Rightarrow> json \<Rightarrow> pydict" where
  "dict_store [] k v = [(k, v)]"
| "dict_store ((k', v') # d) k v =
     (if py_eq k' k then (k', v) # d else (k', v') # dict_store d k v)"

definition dict_setitem :: "pydict \<Rightarrow> json \<Rightarrow> json \<Rightarrow> pyerr + pydict" where
  "dict_setitem d k v = (if hashable k then Inr (dict_store d k v) else Inl TypeError)"

section \<open>get_environment_map\<close>

text \<open>
  The body of the loop over \<open>env_data['values']\<close>, on the map built so far:
  \<^verbatim>\<open>
  if item.get('enabled', False) and 'key' in item and 'value' in item:
      variable_map[item['key']] = item['value']
  \<close>
\<close>

definition env_item :: "json \<Rightarrow> pydict \<Rightarrow> pyerr + pydict" where
  "env_item item variable_map =
     (case py_get item ''enabled'' (JBool False) of
        Inl e \<Rightarrow> Inl e
      | Inr enabled \<Rightarrow>
          if \<not> truthy enabled then Inr variable_map
          else (case py_in ''key'' item of
                  Inl e \<Rightarrow> Inl e
                | Inr has_key \<Rightarrow>
                    if \<not> has_key then Inr variable_map
                    else (case py_in ''value'' item of
                            Inl e \<Rightarrow> Inl e
                          | Inr has_value \<Rightarrow>
                              if \<not> has_value then Inr variable_map
                              else (case py_getitem item ''value'' of
                                      Inl e \<Rightarrow> Inl e
                                    | Inr v \<Rightarrow>
                                        (case py_getitem item ''key'' of
                                           Inl e \<Rightarrow> Inl e
                                         | Inr k \<Rightarrow> dict_setitem variable_map k v)))))"

fun env_loop :: "json list \<Rightarrow> pydict \<Rightarrow> pyerr + pydict" where
  "env_loop [] variable_map = Inr variable_map"
| "env_loop (item # items) variable_map =
     (case env_item item variable_map of
        Inl e \<Rightarrow> Inl e
      | Inr variable_map' \<Rightarrow> env_loop items variable_map')"

definition get_environment_map :: "json \<Rightarrow> pyerr + pydict" where
  "get_environment_map env_data =
     (case py_in ''values'' env_data of
        Inl e \<Rightarrow> Inl e
      | Inr has_values \<Rightarrow>
          if \<not> has_values then Inr []
          else (case py_getitem env_data ''values'' of
                  Inl e \<Rightarrow> Inl e
                | Inr vs \<Rightarrow>
                    (case vs of JArr items \<Rightarrow> env_loop items [] | _ \<Rightarrow> Inr [])))"

section \<open>Placeholders and substitution\<close>

text \<open>
  \<open>re.findall(r"\{\{([^{}]+)\}\}", raw_url)\<close>.  A match at the start of \<open>s\<close> is two opening
  braces, a non-empty run of characters other than braces, and two closing braces.  The run
  is greedy, and a shorter run is followed by a character that is not a closing brace, so
  only the longest run can match.  \<open>match_placeholder\<close> returns the group and the text after
  the match.
\<close>

definition brace :: "char \<Rightarrow> bool" where
  "brace c = (c = CHR ''{'' \<or> c = CHR ''}'')"

fun match_placeholder :: "string \<Rightarrow> (string \<times> string) option" where
  "match_placeholder (a # b # t) =
     (if a = CHR ''{'' \<and> b = CHR ''{'' then
        (let name = takeWhile (\<lambda>c. \<not> brace c) t;
             rest = dropWhile (\<lambda>c. \<not> brace c) t
         in if name \<noteq> [] \<and> startswith ''}}'' rest then Some (name, drop 2 rest) else None)
      else None)"
| "match_placeholder s = None"

lemma match_placeholder_shorter:
  "match_placeholder s = Some (name, rest) \<Longrightarrow> length rest < length s"
proof (cases s rule: match_placeholder.cases)
  case (1 a b t)
  assume m: "match_placeholder s = Some (name, rest)"
  have "length (dropWhile (\<lambda>c. \<not> brace c) t) \<le> length t"
    by (rule length_dropWhile_le)
  with m 1 show ?thesis
    by (auto simp: Let_def split: if_splits)
qed simp_all

text \<open>
  \<open>findall\<close> scans from the left: after a match it goes on behind the match, otherwise one
  character further; it returns the groups of the matches, in order.
\<close>

function findall :: "string \<Rightarrow> string list" where
  "findall [] = []"
| "findall (c # cs) =
     (case match_placeholder (c # cs) of
        Some (name, rest) \<Rightarrow> name # findall rest
      | None \<Rightarrow> findall cs)"
  by pat_completeness auto
termination
  by (relation "measure length") (auto dest: match_placeholder_shorter)

text \<open>
  \<open>s.replace(old, new)\<close>: every occurrence of \<open>old\<close>, found from the left and not overlapping
  an earlier one, becomes \<open>new\<close>; the inserted text is not searched again.  With an empty
  \<open>old\<close> Python inserts \<open>new\<close> around every character.
\<close>

function replace :: "string \<Rightarrow> string \<Rightarrow> string \<Rightarrow> string" where
  "replace [] old new = (if old = [] then new else [])"
| "replace (c # cs) old new =
     (if old = [] then new @ c # replace cs old new
      else if startswith old (c # cs) then new @ replace (drop (length old) (c # cs)) old new
      else c # replace cs old new)"
  by pat_completeness auto
termination
  by (relation "measure (\<lambda>(s, old, new). length s)") auto

text \<open>
  The loop over the placeholders, on the URL resolved so far:
  \<^verbatim>\<open>
  for placeholder in placeholders:
      if placeholder in env_map:
          resolved_url = resolved_url.replace(f"{{{{{placeholder}}}}}", env_map[placeholder])
  \<close>
  \<open>str.replace\<close> raises \<open>TypeError\<close> when its second argument is not a string.
\<close>

fun substitute :: "pydict \<Rightarrow> string list \<Rightarrow> string \<Rightarrow> pyerr + string" where
  "substitute env_map [] resolved_url = Inr resolved_url"
| "substitute env_map (placeholder # placeholders) resolved_url =
     (case dict_lookup env_map (JStr placeholder) of
        None \<Rightarrow> substitute env_map placeholders resolved_url
      | Some (JStr new) \<Rightarrow>
          substitute env_map placeholders
            (replace resolved_url (''{{'' @ placeholder @ ''}}'') new)
      | Some other \<Rightarrow> Inl TypeError)"

text \<open>
  What the script does to one raw URL: scan it once for placeholders, then run the loop.
\<close>

definition resolve_url :: "pydict \<Rightarrow> string \<Rightarrow> pyerr + string" where
  "resolve_url env_map raw_url = substitute env_map (findall raw_url) raw_url"

section \<open>find_and_process_items\<close>

text \<open>
  The body of the \<open>try\<close> block: the method and the resolved URL of the request of
  \<open>collection_item\<close>, or the exception raised on the way.  \<open>re.findall\<close> raises \<open>TypeError\<close>
  when \<open>raw_url\<close> is not a string.
\<close>

definition extract_request :: "json \<Rightarrow> pydict \<Rightarrow> pyerr + (json \<times> string)" where
  "extract_request collection_item env_map =
     (case py_getitem collection_item ''request'' of
        Inl e \<Rightarrow> Inl e
      | Inr request \<Rightarrow>
     (case py_getitem request ''url'' of
        Inl e \<Rightarrow> Inl e
      | Inr url \<Rightarrow>
     (case py_getitem url ''raw'' of
        Inl e \<Rightarrow> Inl e
      | Inr raw_url \<Rightarrow>
     (case py_get request ''method'' (JStr ''N/A'') of
        Inl e \<Rightarrow> Inl e
      | Inr method \<Rightarrow>
     (case raw_url of
        JStr raw \<Rightarrow>
          (case resolve_url env_map raw of
             Inl e \<Rightarrow> Inl e
           | Inr resolved_url \<Rightarrow> Inr (method, resolved_url))
      | _ \<Rightarrow> Inl TypeError)))))"

text \<open>
  The \<open>try\<close> statement: the pairs it appends to \<open>resolved_requests\<close>.  \<open>KeyError\<close> and
  \<open>TypeError\<close> are caught and nothing is appended; any other exception propagates.
\<close>

definition try_request :: "json \<Rightarrow> pydict \<Rightarrow> pyerr + (json \<times> string) list" where
  "try_request collection_item env_map =
     (case extract_request collection_item env_map of
        Inr pair \<Rightarrow> Inr [pair]
      | Inl KeyError \<Rightarrow> Inr []
      | Inl TypeError \<Rightarrow> Inr []
      | Inl AttributeError \<Rightarrow> Inl AttributeError)"

lemma size_map_of:
  "map_of d k = Some v \<Longrightarrow> size v < Suc (size_list (size_prod (\<lambda>x. 0) size) d)"
  by (induction d) (auto split: if_splits)

lemma size_py_getitem: "py_getitem x k = Inr v \<Longrightarrow> size v < size x"
  by (cases x) (auto split: option.splits dest: size_map_of)

text \<open>
  \<open>process_list\<close> is the loop of the list branch; a raise inside it leaves the function.
  The second equation of \<open>find_and_process_items\<close> is the code after the list branch, for
  every value that is not a list.
\<close>

function (sequential)
  find_and_process_items :: "json \<Rightarrow> pydict \<Rightarrow> pyerr + (json \<times> string) list" and
  process_list :: "json list \<Rightarrow> pydict \<Rightarrow> pyerr + (json \<times> string) list"
where
  "find_and_process_items (JArr items) env_map = process_list items env_map"
| "find_and_process_items collection_item env_map =
     (case py_in ''item'' collection_item of
        Inl e \<Rightarrow> Inl e
      | Inr has_item \<Rightarrow>
     (case (if has_item then
              (case py_getitem collection_item ''item'' of
                 Inl e \<Rightarrow> Inl e
               | Inr sub \<Rightarrow>
                   if isinstance_list sub then find_and_process_items sub env_map
                   else Inr [])
            else Inr []) of
        Inl e \<Rightarrow> Inl e
      | Inr nested \<Rightarrow>
     (case py_in ''request'' collection_item of
        Inl e \<Rightarrow> Inl e
      | Inr has_request \<Rightarrow>
          if has_request then
            (case try_request collection_item env_map of
               Inl e \<Rightarrow> Inl e
             | Inr own \<Rightarrow> Inr (nested @ own))
          else Inr nested)))"
| "process_list [] env_map = Inr []"
| "process_list (item # items) env_map =
     (case find_and_process_items item env_map of
        Inl e \<Rightarrow> Inl e
      | Inr found \<Rightarrow>
          (case process_list items env_map of
             Inl e \<Rightarrow> Inl e
           | Inr more \<Rightarrow> Inr (found @ more)))"
  by pat_completeness auto
termination
  by (relation "measure (\<lambda>x. case x of Inl (j, e) \<Rightarrow> size j | Inr (js, e) \<Rightarrow> size_list size js)")
     (auto dest: size_py_getitem size_map_of)

section \<open>The walk on a store of objects\<close>

text \<open>
  Lists and dictionaries are objects that can be written to, and a Python variable holds a
  reference to one.  To say what \<open>find_and_process_items\<close> does to its arguments, this section
  gives the function a second time, now on a store of objects: a value is \<open>None\<close>, a
  boolean, a number, a string, a pair (the tuples the function builds) or the address of an
  object; an object is a list of values or a dictionary from values to values.  The store
  is the list of all objects, an address is an index into it, and a new object goes to the
  end.
\<close>

datatype pyval =
    PNone | PBool bool | PInt int | PFloat rat | PStr string
  | PTuple pyval pyval
  | PRef nat

datatype pyobj = OList "pyval list" | ODict "(pyval \<times> pyval) list"

type_synonym store = "pyobj list"

text \<open>
  What an operation sees of a value in a store: the elements of a list, the items of a
  dictionary, or the value itself.  No value of a running program refers outside the store;
  \<open>view\<close> has no answer for such an address.
\<close>

datatype view = VList "pyval list" | VDict "(pyval \<times> pyval) list" | VAtom pyval

definition view :: "store \<Rightarrow> pyval \<Rightarrow> view option" where
  "view st v =
     (case v of
        PRef a \<Rightarrow>
          (if a < length st
           then Some (case st ! a of OList vs \<Rightarrow> VList vs | ODict kvs \<Rightarrow> VDict kvs)
           else None)
      | _ \<Rightarrow> Some (VAtom v))"

text \<open>
  The operations of the first model, on views.  The keys looked up are strings, and a
  string is equal to a string only.
\<close>

fun key_lookup :: "(pyval \<times> pyval) list \<Rightarrow> string \<Rightarrow> pyval option" where
  "key_lookup [] k = None"
| "key_lookup ((k', v) # kvs) k = (if k' = PStr k then Some v else key_lookup kvs k)"

fun v_in :: "string \<Rightarrow> view \<Rightarrow> pyerr + bool" where
  "v_in k (VDict kvs) = Inr (key_lookup kvs k \<noteq> None)"
| "v_in k (VList vs) = Inr (PStr k \<in> set vs)"
| "v_in k (VAtom (PStr s)) = Inr (str_contains k s)"
| "v_in k (VAtom (PTuple a b)) = Inr (a = PStr k \<or> b = PStr k)"
| "v_in k (VAtom x) = Inl TypeError"

fun v_getitem :: "view \<Rightarrow> string \<Rightarrow> pyerr + pyval" where
  "v_getitem (VDict kvs) k = (case key_lookup kvs k of None \<Rightarrow> Inl KeyError | Some v \<Rightarrow> Inr v)"
| "v_getitem x k = Inl TypeError"

fun v_get :: "view \<Rightarrow> string \<Rightarrow> pyval \<Rightarrow> pyerr + pyval" where
  "v_get (VDict kvs) k dflt = Inr (case key_lookup kvs k of None \<Rightarrow> dflt | Some v \<Rightarrow> v)"
| "v_get x k dflt = Inl AttributeError"

fun is_VList :: "view \<Rightarrow> bool" where
  "is_VList (VList vs) = True"
| "is_VList x = False"

text \<open>
  The two writes of the source: \<open>resolved_requests.append(x)\<close> and
  \<open>resolved_requests.extend(r)\<close>, where \<open>r\<close> is the list a recursive call returned.  They
  replace the list object at the address of \<open>resolved_requests\<close>.
\<close>

definition list_append :: "store \<Rightarrow> nat \<Rightarrow> pyval \<Rightarrow> store option" where
  "list_append st a x =
     (case view st (PRef a) of
        Some (VList old) \<Rightarrow> Some (st[a := OList (old @ [x])])
      | _ \<Rightarrow> None)"

definition list_extend :: "store \<Rightarrow> nat \<Rightarrow> pyval \<Rightarrow> store option" where
  "list_extend st a r =
     (case view st (PRef a) of
        Some (VList old) \<Rightarrow>
          (case view st r of
             Some (VList xs) \<Rightarrow> Some (st[a := OList (old @ xs)])
           | _ \<Rightarrow> None)
      | _ \<Rightarrow> None)"

text \<open>
  The loop over the placeholders and the body of the \<open>try\<close> block.  They read the store
  and write nothing; the pair \<open>(method, resolved_url)\<close> is a value.
\<close>

fun substitute_st :: "store \<Rightarrow> pyval \<Rightarrow> string list \<Rightarrow> string \<Rightarrow> (pyerr + string) option" where
  "substitute_st st env_map [] resolved_url = Some (Inr resolved_url)"
| "substitute_st st env_map (placeholder # placeholders) resolved_url =
     (case view st env_map of
        None \<Rightarrow> None
      | Some ve \<Rightarrow>
          (case v_in placeholder ve of
             Inl e \<Rightarrow> Some (Inl e)
           | Inr found \<Rightarrow>
               if \<not> found then substitute_st st env_map placeholders resolved_url
               else (case v_getitem ve placeholder of
                       Inl e \<Rightarrow> Some (Inl e)
                     | Inr (PStr new) \<Rightarrow>
                         substitute_st st env_map placeholders
                           (replace resolved_url (''{{'' @ placeholder @ ''}}'') new)
                     | Inr other \<Rightarrow> Some (Inl TypeError))))"

definition extract_request_st :: "store \<Rightarrow> pyval \<Rightarrow> pyval \<Rightarrow> (pyerr + pyval) option" where
  "extract_request_st st collection_item env_map =
     (case view st collection_item of None \<Rightarrow> None | Some vi \<Rightarrow>
     (case v_getitem vi ''request'' of Inl e \<Rightarrow> Some (Inl e) | Inr request \<Rightarrow>
     (case view st request of None \<Rightarrow> None | Some vr \<Rightarrow>
     (case v_getitem vr ''url'' of Inl e \<Rightarrow> Some (Inl e) | Inr url \<Rightarrow>
     (case view st url of None \<Rightarrow> None | Some vu \<Rightarrow>
     (case v_getitem vu ''raw'' of Inl e \<Rightarrow> Some (Inl e) | Inr raw_url \<Rightarrow>
     (case v_get vr ''method'' (PStr ''N/A'') of Inl e \<Rightarrow> Some (Inl e) | Inr method \<Rightarrow>
     (case raw_url of
        PStr raw \<Rightarrow>
          (case substitute_st st env_map (findall raw) raw of
             None \<Rightarrow> None
           | Some (Inl e) \<Rightarrow> Some (Inl e)
           | Some (Inr resolved_url) \<Rightarrow> Some (Inr (PTuple method (PStr resolved_url))))
      | _ \<Rightarrow> Some (Inl TypeError)))))))))"

text \<open>
  The \<open>if 'request' in collection_item\<close> statement with its \<open>try\<close>, followed by
  \<open>return resolved_requests\<close>: an exception leaves the store as it is at that moment.
\<close>

definition request_part_st ::
  "pyval \<Rightarrow> pyval \<Rightarrow> nat \<Rightarrow> store \<Rightarrow> ((pyerr + pyval) \<times> store) option" where
  "request_part_st collection_item env_map resolved_requests st =
     (case view st collection_item of None \<Rightarrow> None | Some vi \<Rightarrow>
     (case v_in ''request'' vi of
        Inl e \<Rightarrow> Some (Inl e, st)
      | Inr has_request \<Rightarrow>
          if \<not> has_request then Some (Inr (PRef resolved_requests), st)
          else (case extract_request_st st collection_item env_map of
                  None \<Rightarrow> None
                | Some (Inr pair) \<Rightarrow>
                    (case list_append st resolved_requests pair of
                       None \<Rightarrow> None
                     | Some st' \<Rightarrow> Some (Inr (PRef resolved_requests), st'))
                | Some (Inl KeyError) \<Rightarrow> Some (Inr (PRef resolved_requests), st)
                | Some (Inl TypeError) \<Rightarrow> Some (Inr (PRef resolved_requests), st)
                | Some (Inl AttributeError) \<Rightarrow> Some (Inl AttributeError, st))))"

text \<open>
  The \<open>if 'item' in collection_item and isinstance(collection_item['item'], list)\<close>
  statement; \<open>call\<close> is the recursive call.
\<close>

definition item_part_st ::
  "(pyval \<Rightarrow> store \<Rightarrow> ((pyerr + pyval) \<times> store) option) \<Rightarrow>
   pyval \<Rightarrow> nat \<Rightarrow> store \<Rightarrow> ((pyerr + unit) \<times> store) option" where
  "item_part_st call collection_item resolved_requests st =
     (case view st collection_item of None \<Rightarrow> None | Some vi \<Rightarrow>
     (case v_in ''item'' vi of
        Inl e \<Rightarrow> Some (Inl e, st)
      | Inr has_item \<Rightarrow>
          if \<not> has_item then Some (Inr (), st)
          else (case v_getitem vi ''item'' of
                  Inl e \<Rightarrow> Some (Inl e, st)
                | Inr sub \<Rightarrow>
                    (case view st sub of
                       None \<Rightarrow> None
                     | Some vs \<Rightarrow>
                         if \<not> is_VList vs then Some (Inr (), st)
                         else (case call sub st of
                                 None \<Rightarrow> None
                               | Some (Inl e, st2) \<Rightarrow> Some (Inl e, st2)
                               | Some (Inr found, st2) \<Rightarrow>
                                   (case list_extend st2 resolved_requests found of
                                      None \<Rightarrow> None
                                    | Some st3 \<Rightarrow> Some (Inr (), st3)))))))"

text \<open>
  The function and the loop of its list branch.  \<open>resolved_requests = []\<close> allocates a new
  list.  The loop reads the list it iterates over at every step, by index, as Python's list
  iterator does.  The first argument is fuel: every call and every iteration uses one unit,
  and the result is \<open>None\<close> when the fuel runs out.
\<close>

fun find_and_process_items_st ::
    "nat \<Rightarrow> pyval \<Rightarrow> pyval \<Rightarrow> store \<Rightarrow> ((pyerr + pyval) \<times> store) option" and
  process_list_st ::
    "nat \<Rightarrow> pyval \<Rightarrow> nat \<Rightarrow> pyval \<Rightarrow> nat \<Rightarrow> store \<Rightarrow> ((pyerr + pyval) \<times> store) option"
where
  "find_and_process_items_st 0 collection_item env_map st = None"
| "find_and_process_items_st (Suc n) collection_item env_map st =
     (let resolved_requests = length st; st1 = st @ [OList []] in
      case view st1 collection_item of
        None \<Rightarrow> None
      | Some vi \<Rightarrow>
          if is_VList vi then process_list_st n collection_item 0 env_map resolved_requests st1
          else (case item_part_st (\<lambda>sub s. find_and_process_items_st n sub env_map s)
                       collection_item resolved_requests st1 of
                  None \<Rightarrow> None
                | Some (Inl e, st3) \<Rightarrow> Some (Inl e, st3)
                | Some (Inr u, st3) \<Rightarrow>
                    request_part_st collection_item env_map resolved_requests st3))"
| "process_list_st 0 collection_item i env_map resolved_requests st =
     (case view st collection_item of
        Some (VList vs) \<Rightarrow> if i < length vs then None else Some (Inr (PRef resolved_requests), st)
      | _ \<Rightarrow> None)"
| "process_list_st (Suc n) collection_item i env_map resolved_requests st =
     (case view st collection_item of
        Some (VList vs) \<Rightarrow>
          if i < length vs then
            (case find_and_process_items_st n (vs ! i) env_map st of
               None \<Rightarrow> None
             | Some (Inl e, st2) \<Rightarrow> Some (Inl e, st2)
             | Some (Inr found, st2) \<Rightarrow>
                 (case list_extend st2 resolved_requests found of
                    None \<Rightarrow> None
                  | Some st3 \<Rightarrow> process_list_st n collection_item (Suc i) env_map resolved_requests st3))
          else Some (Inr (PRef resolved_requests), st)
      | _ \<Rightarrow> None)"

section \<open>Notions of the specification\<close>

subsection \<open>Entries of the environment document\<close>

text \<open>
  A field of an entry; an entry that is not a dictionary has none.  An entry is included
  when its enabled flag is truthy and both its key and its value are present.
\<close>

definition entry_field :: "json \<Rightarrow> string \<Rightarrow> json option" where
  "entry_field item k = (case item of JObj f \<Rightarrow> map_of f k | _ \<Rightarrow> None)"

definition entry_included :: "json \<Rightarrow> bool" where
  "entry_included item =
     ((case entry_field item ''enabled'' of None \<Rightarrow> False | Some v \<Rightarrow> truthy v)
      \<and> entry_field item ''key'' \<noteq> None \<and> entry_field item ''value'' \<noteq> None)"

text \<open>
  The entries the loop gets past: dictionaries whose key, when they are included, can be
  hashed.  \<open>is_obj\<close> tells the dictionaries from the other values.
\<close>

fun is_obj :: "json \<Rightarrow> bool" where
  "is_obj (JObj d) = True"
| "is_obj x = False"

definition entry_ok :: "json \<Rightarrow> bool" where
  "entry_ok item =
     (case item of
        JObj f \<Rightarrow>
          (entry_included item \<longrightarrow>
             (case entry_field item ''key'' of None \<Rightarrow> False | Some k \<Rightarrow> hashable k))
      | _ \<Rightarrow> False)"

subsection \<open>Keys of the variable map\<close>

text \<open>Equality of keys is an equivalence: two keys are equal when they fall in one class.\<close>

definition key_class :: "json \<Rightarrow> rat + json" where
  "key_class a = (case num_val a of Some x \<Rightarrow> Inl x | None \<Rightarrow> Inr a)"

subsection \<open>Nodes of the collection tree\<close>

text \<open>
  The nodes the walk visits, in depth-first, left-to-right order, the nodes nested under the
  \<open>item\<close> list of a node before the node itself.  A list is the sequence of its elements and
  not a node of its own.
\<close>

function (sequential)
  dfs_nodes :: "json \<Rightarrow> json list" and
  dfs_list :: "json list \<Rightarrow> json list"
where
  "dfs_nodes (JArr items) = dfs_list items"
| "dfs_nodes (JObj d) =
     (case map_of d ''item'' of Some (JArr items) \<Rightarrow> dfs_list items | _ \<Rightarrow> []) @ [JObj d]"
| "dfs_nodes node = [node]"
| "dfs_list [] = []"
| "dfs_list (item # items) = dfs_nodes item @ dfs_list items"
  by pat_completeness auto
termination
  by (relation "measure (\<lambda>x. case x of Inl j \<Rightarrow> size j | Inr js \<Rightarrow> size_list size js)")
     (auto dest: size_map_of)

text \<open>
  The trees the walk gets through: every visited node is a dictionary, or a string in which
  \<open>'item'\<close> does not occur.  The shape of the request descriptors plays no part.
\<close>

function (sequential)
  walkable :: "json \<Rightarrow> bool" and
  walkable_list :: "json list \<Rightarrow> bool"
where
  "walkable (JArr items) = walkable_list items"
| "walkable (JObj d) =
     (case map_of d ''item'' of Some (JArr items) \<Rightarrow> walkable_list items | _ \<Rightarrow> True)"
| "walkable (JStr s) = (\<not> str_contains ''item'' s)"
| "walkable node = False"
| "walkable_list [] = True"
| "walkable_list (item # items) = (walkable item \<and> walkable_list items)"
  by pat_completeness auto
termination
  by (relation "measure (\<lambda>x. case x of Inl j \<Rightarrow> size j | Inr js \<Rightarrow> size_list size js)")
     (auto dest: size_map_of)

text \<open>What one node adds to the output: its resolved request, if the extraction succeeds.\<close>

definition own_requests :: "pydict \<Rightarrow> json \<Rightarrow> (json \<times> string) list" where
  "own_requests env_map node =
     (case extract_request node env_map of Inr pair \<Rightarrow> [pair] | Inl e \<Rightarrow> [])"

text \<open>
  A node exposes a well-formed request descriptor when it is a dictionary whose \<open>request\<close>
  is a dictionary whose \<open>url\<close> is a dictionary whose \<open>raw\<close> is a string; the method has a
  default and may be absent.
\<close>

definition request_raw :: "json \<Rightarrow> string option" where
  "request_raw node =
     (case node of
        JObj d \<Rightarrow>
          (case map_of d ''request'' of
             Some (JObj request) \<Rightarrow>
               (case map_of request ''url'' of
                  Some (JObj url) \<Rightarrow>
                    (case map_of url ''raw'' of Some (JStr raw) \<Rightarrow> Some raw | _ \<Rightarrow> None)
                | _ \<Rightarrow> None)
           | _ \<Rightarrow> None)
      | _ \<Rightarrow> None)"

text \<open>The method of a request descriptor, \<open>'N/A'\<close> when it has none.\<close>

definition request_method :: "json \<Rightarrow> json" where
  "request_method node =
     (case node of
        JObj d \<Rightarrow>
          (case map_of d ''request'' of
             Some (JObj request) \<Rightarrow>
               (case map_of request ''method'' of None \<Rightarrow> JStr ''N/A'' | Some m \<Rightarrow> m)
           | _ \<Rightarrow> JStr ''N/A'')
      | _ \<Rightarrow> JStr ''N/A'')"

definition well_formed_request :: "json \<Rightarrow> bool" where
  "well_formed_request node = (request_raw node \<noteq> None)"

fun is_str :: "json \<Rightarrow> bool" where
  "is_str (JStr s) = True"
| "is_str x = False"

text \<open>
  The placeholders \<open>names\<close> are bound to strings when each of them is either not in the map
  or has a string as value.  A node is resolvable when its request descriptor is well-formed
  and the placeholders of its raw URL are bound to strings.
\<close>

definition bound_to_strings :: "pydict \<Rightarrow> string list \<Rightarrow> bool" where
  "bound_to_strings env_map names =
     list_all (\<lambda>n. case dict_lookup env_map (JStr n) of None \<Rightarrow> True | Some v \<Rightarrow> is_str v) names"

definition resolvable :: "pydict \<Rightarrow> json \<Rightarrow> bool" where
  "resolvable env_map node =
     (case request_raw node of None \<Rightarrow> False | Some raw \<Rightarrow> bound_to_strings env_map (findall raw))"

subsection \<open>Substitution in a single pass\<close>

text \<open>
  The substitution the specification describes, in its words: scan the raw URL once; every
  placeholder token whose name is a key of the map with a string as value is replaced by
  that value, every other token is left as it is, and so is all other text.  Nothing that
  was inserted is looked at again.
\<close>

function substitute_once :: "pydict \<Rightarrow> string \<Rightarrow> string" where
  "substitute_once env_map [] = []"
| "substitute_once env_map (c # cs) =
     (case match_placeholder (c # cs) of
        Some (name, rest) \<Rightarrow>
          (case dict_lookup env_map (JStr name) of
             Some (JStr v) \<Rightarrow> v
           | _ \<Rightarrow> ''{{'' @ name @ ''}}'') @ substitute_once env_map rest
      | None \<Rightarrow> c # substitute_once env_map cs)"
  by pat_completeness auto
termination
  by (relation "measure (\<lambda>(e, s). length s)") (auto dest: match_placeholder_shorter)

text \<open>
  A raw URL is tidy when braces occur in it only as part of placeholder tokens; a string is
  plain when it has no brace at all.  The placeholders \<open>names\<close> are bound to plain strings
  when each of them is either not in the map or has a plain string as value.
\<close>

function tidy :: "string \<Rightarrow> bool" where
  "tidy [] = True"
| "tidy (c # cs) =
     (case match_placeholder (c # cs) of
        Some (name, rest) \<Rightarrow> tidy rest
      | None \<Rightarrow> \<not> brace c \<and> tidy cs)"
  by pat_completeness auto
termination
  by (relation "measure length") (auto dest: match_placeholder_shorter)

definition plain :: "string \<Rightarrow> bool" where
  "plain v = list_all (\<lambda>c. \<not> brace c) v"

definition bound_to_plain_strings :: "pydict \<Rightarrow> string list \<Rightarrow> bool" where
  "bound_to_plain_strings env_map names =
     list_all (\<lambda>n. case dict_lookup env_map (JStr n) of
                     None \<Rightarrow> True | Some (JStr v) \<Rightarrow> plain v | Some other \<Rightarrow> False) names"

text \<open>
  A tidy URL is a sequence of characters that are not braces and of tokens.  \<open>expand\<close>
  replaces the tokens a partial map binds by the characters of their values.
\<close>

datatype seg = Lit char | Tok string

fun render :: "seg \<Rightarrow> string" where
  "render (Lit c) = [c]"
| "render (Tok n) = ''{{'' @ n @ ''}}''"

definition render_all :: "seg list \<Rightarrow> string" where
  "render_all segs = concat (map render segs)"

fun seg_ok :: "seg \<Rightarrow> bool" where
  "seg_ok (Lit c) = (\<not> brace c)"
| "seg_ok (Tok n) = (n \<noteq> [] \<and> plain n)"

fun expand :: "(string \<Rightarrow> string option) \<Rightarrow> seg \<Rightarrow> seg list" where
  "expand \<sigma> (Lit c) = [Lit c]"
| "expand \<sigma> (Tok n) = (case \<sigma> n of Some v \<Rightarrow> map Lit v | None \<Rightarrow> [Tok n])"

definition expand_all :: "(string \<Rightarrow> string option) \<Rightarrow> seg list \<Rightarrow> seg list" where
  "expand_all \<sigma> segs = concat (map (expand \<sigma>) segs)"

fun tok_names :: "seg list \<Rightarrow> string list" where
  "tok_names [] = []"
| "tok_names (Lit c # segs) = tok_names segs"
| "tok_names (Tok n # segs) = n # tok_names segs"

text \<open>The string values of a variable map, by placeholder name.\<close>

definition string_bindings :: "pydict \<Rightarrow> string \<Rightarrow> string option" where
  "string_bindings env_map n =
     (case dict_lookup env_map (JStr n) of Some (JStr v) \<Rightarrow> Some v | _ \<Rightarrow> None)"

subsection \<open>Stores that hold the documents\<close>

text \<open>
  A store extends another when it has all objects of the other, unchanged, at their
  addresses.
\<close>

definition extends :: "store \<Rightarrow> store \<Rightarrow> bool" where
  "extends st0 st = (length st0 \<le> length st \<and> take (length st0) st = st0)"

text \<open>
  A value represents a JSON value in a store: numbers, strings and \<open>None\<close> stand for
  themselves, an address stands for a list or dictionary whose object holds
  representations of the elements or items.  The variable map is a dictionary whose keys
  and values are represented.
\<close>

inductive rep :: "store \<Rightarrow> pyval \<Rightarrow> json \<Rightarrow> bool" for st :: store where
  rep_null: "rep st PNone JNull"
| rep_bool: "rep st (PBool b) (JBool b)"
| rep_int: "rep st (PInt i) (JInt i)"
| rep_float: "rep st (PFloat r) (JFloat r)"
| rep_str: "rep st (PStr s) (JStr s)"
| rep_list: "a < length st \<Longrightarrow> st ! a = OList vs \<Longrightarrow> list_all2 (rep st) vs js \<Longrightarrow>
     rep st (PRef a) (JArr js)"
| rep_dict: "a < length st \<Longrightarrow> st ! a = ODict kvs \<Longrightarrow>
     list_all2 (\<lambda>kv kj. fst kv = PStr (fst kj) \<and> rep st (snd kv) (snd kj)) kvs d \<Longrightarrow>
     rep st (PRef a) (JObj d)"

inductive_cases rep_JNull: "rep st v JNull"
inductive_cases rep_JBool: "rep st v (JBool b)"
inductive_cases rep_JInt: "rep st v (JInt i)"
inductive_cases rep_JFloat: "rep st v (JFloat r)"
inductive_cases rep_JStr: "rep st v (JStr s)"
inductive_cases rep_JArr: "rep st v (JArr js)"
inductive_cases rep_JObj: "rep st v (JObj d)"
inductive_cases rep_PStr: "rep st (PStr s) j"

definition env_rep :: "store \<Rightarrow> pyval \<Rightarrow> pydict \<Rightarrow> bool" where
  "env_rep st env_map e =
     (\<exists>a kvs. env_map = PRef a \<and> a < length st \<and> st ! a = ODict kvs
        \<and> list_all2 (\<lambda>kv kj. rep st (fst kv) (fst kj) \<and> rep st (snd kv) (snd kj)) kvs e)"

fun view_rep :: "store \<Rightarrow> view \<Rightarrow> json \<Rightarrow> bool" where
  "view_rep st (VList vs) j = (\<exists>js. j = JArr js \<and> list_all2 (rep st) vs js)"
| "view_rep st (VDict kvs) j =
     (\<exists>d. j = JObj d \<and>
        list_all2 (\<lambda>kv kj. fst kv = PStr (fst kj) \<and> rep st (snd kv) (snd kj)) kvs d)"
| "view_rep st (VAtom v) j = (rep st v j \<and> \<not> isinstance_list j \<and> (\<forall>d. j \<noteq> JObj d))"

text \<open>
  Results: the result of an operation, a pair of the output, and the outcome of a run whose
  list \<open>resolved_requests\<close> at address \<open>rr\<close> held representations of \<open>before\<close> when the run
  started.
\<close>

definition sum_rep :: "store \<Rightarrow> pyerr + pyval \<Rightarrow> pyerr + json \<Rightarrow> bool" where
  "sum_rep st r p = (case p of Inl e \<Rightarrow> r = Inl e | Inr x \<Rightarrow> (\<exists>v. r = Inr v \<and> rep st v x))"

definition pair_rep :: "store \<Rightarrow> pyval \<Rightarrow> json \<times> string \<Rightarrow> bool" where
  "pair_rep st v p = (\<exists>m. v = PTuple m (PStr (snd p)) \<and> rep st m (fst p))"

definition result_rep ::
  "store \<Rightarrow> nat \<Rightarrow> (json \<times> string) list \<Rightarrow> (pyerr + pyval) \<times> store \<Rightarrow>
   pyerr + (json \<times> string) list \<Rightarrow> bool" where
  "result_rep st0 rr before out p =
     (case p of
        Inl er \<Rightarrow> fst out = Inl er
      | Inr found \<Rightarrow>
          fst out = Inr (PRef rr) \<and> rr < length (snd out)
          \<and> (\<exists>vs. snd out ! rr = OList vs \<and> list_all2 (pair_rep st0) vs (before @ found)))"

text \<open>
  The run on the store computes what the function on JSON values computes, for one tree
  and for the rest of a list from index \<open>i\<close> on.
\<close>

definition walk_refines :: "json \<Rightarrow> pydict \<Rightarrow> bool" where
  "walk_refines j e =
     (\<forall>st0 st item env. rep st0 item j \<longrightarrow> env_rep st0 env e \<longrightarrow> extends st0 st \<longrightarrow>
        (\<exists>n out. find_and_process_items_st n item env st = Some out
            \<and> result_rep st0 (length st) [] out (find_and_process_items j e)))"

definition loop_refines :: "json list \<Rightarrow> pydict \<Rightarrow> bool" where
  "loop_refines js e =
     (\<forall>st0 st a vs i env rr acc before.
        a < length st0 \<longrightarrow> st0 ! a = OList vs \<longrightarrow> i \<le> length vs \<longrightarrow>
        list_all2 (rep st0) (drop i vs) js \<longrightarrow> env_rep st0 env e \<longrightarrow> extends st0 st \<longrightarrow>
        length st0 \<le> rr \<longrightarrow> rr < length st \<longrightarrow> st ! rr = OList acc \<longrightarrow>
        list_all2 (pair_rep st0) acc before \<longrightarrow>
        (\<exists>n out. process_list_st n (PRef a) i env rr st = Some out
            \<and> result_rep st0 rr before out (process_list js e)))"

section \<open>Properties of get_environment_map\<close>

lemma py_eq_key_class: "py_eq a b = (key_class a = key_class b)"
  by (auto simp: py_eq_def key_class_def split: option.splits)

lemma env_item_obj:
  "env_item (JObj f) vm =
     (if entry_included (JObj f)
      then (case (map_of f ''key'', map_of f ''value'') of
              (Some k, Some v) \<Rightarrow> dict_setitem vm k v | _ \<Rightarrow> Inr vm)
      else Inr vm)"
  by (auto simp: env_item_def entry_included_def entry_field_def split: option.splits)

lemma env_item_not_obj: "\<forall>f. item \<noteq> JObj f \<Longrightarrow> env_item item vm = Inl AttributeError"
  by (cases item) (auto simp: env_item_def)

lemma env_item_returns: "(\<exists>m. env_item item vm = Inr m) = entry_ok item"
  by (cases item)
     (auto simp: env_item_obj env_item_not_obj entry_ok_def entry_included_def entry_field_def
        dict_setitem_def split: option.splits)

lemma env_loop_returns:
  "(\<exists>m. env_loop items vm = Inr m) = (\<forall>item\<in>set items. entry_ok item)"
proof (induction items arbitrary: vm)
  case Nil
  show ?case by simp
next
  case (Cons item items)
  show ?case
  proof (cases "env_item item vm")
    case (Inl e)
    then have "\<not> entry_ok item" using env_item_returns [of item vm] by simp
    with Inl show ?thesis by simp
  next
    case (Inr vm')
    then have "entry_ok item" using env_item_returns [of item vm] by auto
    with Inr Cons.IH [of vm'] show ?thesis by simp
  qed
qed

lemma env_loop_append:
  "env_loop (xs @ ys) vm =
     (case env_loop xs vm of Inl e \<Rightarrow> Inl e | Inr vm' \<Rightarrow> env_loop ys vm')"
  by (induction xs arbitrary: vm) (auto split: sum.splits)

lemma env_item_raises:
  "\<not> entry_ok item \<Longrightarrow>
   env_item item vm = Inl (if is_obj item then TypeError else AttributeError)"
  by (cases item)
     (auto simp: env_item_obj env_item_not_obj entry_ok_def entry_included_def entry_field_def
        dict_setitem_def split: option.splits)

lemma env_loop_first_offender:
  assumes "\<forall>x\<in>set before. entry_ok x" and "\<not> entry_ok item"
  shows "env_loop (before @ item # after) vm
           = Inl (if is_obj item then TypeError else AttributeError)"
proof -
  from assms(1) env_loop_returns [of before vm] obtain vm' where "env_loop before vm = Inr vm'"
    by auto
  with env_item_raises [OF assms(2), of vm'] show ?thesis
    by (simp add: env_loop_append)
qed

text \<open>
  Claim C3, as stated, fails: a \<open>values\<close> list with an entry that is not a dictionary makes
  \<open>item.get\<close> raise \<open>AttributeError\<close>, which nothing catches.
\<close>

theorem get_environment_map_raises_on_scalar_entry:
  "get_environment_map (JObj [(''values'', JArr [JInt 5])]) = Inl AttributeError"
  by (simp add: get_environment_map_def env_item_def)

text \<open>
  Claim C3, amended.  On an environment document that is a dictionary,
  \<open>get_environment_map\<close> returns the empty map when \<open>values\<close> is absent or is not a list.
  When \<open>values\<close> is a list, it returns a map exactly when every entry is a dictionary whose
  key, if the entry is included, is hashable; otherwise the first entry, in the order of
  the list, that is not so decides the exception: \<open>AttributeError\<close> when that entry is not a
  dictionary, \<open>TypeError\<close> when it is an included dictionary whose key is a list or a
  dictionary.
\<close>

theorem get_environment_map_total_on_dicts:
  "((map_of d ''values'' = None \<or> (\<exists>v. map_of d ''values'' = Some v \<and> \<not> isinstance_list v))
      \<longrightarrow> get_environment_map (JObj d) = Inr [])
   \<and> (\<forall>items. map_of d ''values'' = Some (JArr items) \<longrightarrow>
         ((\<exists>m. get_environment_map (JObj d) = Inr m) = (\<forall>item\<in>set items. entry_ok item))
         \<and> (\<forall>before item after.
               items = before @ item # after \<and> (\<forall>x\<in>set before. entry_ok x) \<and> \<not> entry_ok item
               \<longrightarrow> get_environment_map (JObj d)
                     = Inl (if is_obj item then TypeError else AttributeError)))"
proof (intro conjI impI allI)
  assume "map_of d ''values'' = None \<or> (\<exists>v. map_of d ''values'' = Some v \<and> \<not> isinstance_list v)"
  then show "get_environment_map (JObj d) = Inr []"
  proof
    assume "map_of d ''values'' = None"
    then show ?thesis by (simp add: get_environment_map_def)
  next
    assume "\<exists>v. map_of d ''values'' = Some v \<and> \<not> isinstance_list v"
    then obtain v where "map_of d ''values'' = Some v" "\<not> isinstance_list v" by blast
    then show ?thesis by (cases v) (simp_all add: get_environment_map_def)
  qed
next
  fix items
  assume "map_of d ''values'' = Some (JArr items)"
  then have "get_environment_map (JObj d) = env_loop items []"
    by (simp add: get_environment_map_def)
  then show "(\<exists>m. get_environment_map (JObj d) = Inr m) = (\<forall>item\<in>set items. entry_ok item)"
    by (simp add: env_loop_returns)
next
  fix items before item after
  assume v: "map_of d ''values'' = Some (JArr items)"
    and "items = before @ item # after \<and> (\<forall>x\<in>set before. entry_ok x) \<and> \<not> entry_ok item"
  then have i: "items = before @ item # after" and b: "\<forall>x\<in>set before. entry_ok x"
    and n: "\<not> entry_ok item" by simp_all
  from v have "get_environment_map (JObj d) = env_loop items []"
    by (simp add: get_environment_map_def)
  with i env_loop_first_offender [OF b n, of after "[]"]
  show "get_environment_map (JObj d) = Inl (if is_obj item then TypeError else AttributeError)"
    by simp
qed

theorem get_environment_map_total_on_dicts_witness:
  "get_environment_map (JObj [(''name'', JStr ''dev'')]) = Inr []
   \<and> get_environment_map (JObj [(''values'', JStr ''none'')]) = Inr []
   \<and> (\<exists>m. get_environment_map
            (JObj [(''values'',
                    JArr [JObj [(''enabled'', JBool True), (''key'', JStr ''token''),
                                (''value'', JStr ''abc123'')],
                          JObj [(''enabled'', JBool False), (''key'', JArr [])]])]) = Inr m)
   \<and> get_environment_map
         (JObj [(''values'',
                 JArr [JObj [(''enabled'', JBool True), (''key'', JStr ''token''),
                             (''value'', JStr ''abc123'')],
                       JObj [(''enabled'', JBool True), (''key'', JArr []), (''value'', JStr ''v'')],
                       JInt 5])]) = Inl TypeError
   \<and> get_environment_map
         (JObj [(''values'',
                 JArr [JStr ''token'',
                       JObj [(''enabled'', JBool True), (''key'', JArr []), (''value'', JStr ''v'')]])])
       = Inl AttributeError"
proof (intro conjI)
  let ?ok = "JObj [(''enabled'', JBool True), (''key'', JStr ''token''), (''value'', JStr ''abc123'')]"
  let ?bad = "JObj [(''enabled'', JBool True), (''key'', JArr []), (''value'', JStr ''v'')]"
  show "get_environment_map (JObj [(''name'', JStr ''dev'')]) = Inr []"
    using get_environment_map_total_on_dicts [of "[(''name'', JStr ''dev'')]"] by simp
  show "get_environment_map (JObj [(''values'', JStr ''none'')]) = Inr []"
    using get_environment_map_total_on_dicts [of "[(''values'', JStr ''none'')]"] by simp
  show "\<exists>m. get_environment_map
            (JObj [(''values'',
                    JArr [?ok, JObj [(''enabled'', JBool False), (''key'', JArr [])]])]) = Inr m"
    using get_environment_map_total_on_dicts
            [of "[(''values'',
                    JArr [?ok, JObj [(''enabled'', JBool False), (''key'', JArr [])]])]"]
    by (simp add: entry_ok_def entry_included_def entry_field_def)
  show "get_environment_map (JObj [(''values'', JArr [?ok, ?bad, JInt 5])]) = Inl TypeError"
  proof -
    have v: "map_of [(''values'', JArr [?ok, ?bad, JInt 5])] ''values''
        = Some (JArr ([?ok] @ ?bad # [JInt 5]))" by simp
    have h: "[?ok] @ ?bad # [JInt 5] = [?ok] @ ?bad # [JInt 5]
        \<and> (\<forall>x\<in>set [?ok]. entry_ok x) \<and> \<not> entry_ok ?bad"
      by (simp add: entry_ok_def entry_included_def entry_field_def)
    from get_environment_map_total_on_dicts
           [of "[(''values'', JArr [?ok, ?bad, JInt 5])]", THEN conjunct2, rule_format, OF v,
            THEN conjunct2, rule_format, OF h]
    show ?thesis by simp
  qed
  show "get_environment_map (JObj [(''values'', JArr [JStr ''token'', ?bad])]) = Inl AttributeError"
  proof -
    have v: "map_of [(''values'', JArr [JStr ''token'', ?bad])] ''values''
        = Some (JArr ([] @ JStr ''token'' # [?bad]))" by simp
    have h: "[] @ JStr ''token'' # [?bad] = [] @ JStr ''token'' # [?bad]
        \<and> (\<forall>x\<in>set []. entry_ok x) \<and> \<not> entry_ok (JStr ''token'')"
      by (simp add: entry_ok_def)
    from get_environment_map_total_on_dicts
           [of "[(''values'', JArr [JStr ''token'', ?bad])]", THEN conjunct2, rule_format, OF v,
            THEN conjunct2, rule_format, OF h]
    show ?thesis by simp
  qed
qed

lemma dict_lookup_store:
  "dict_lookup (dict_store d k v) k' = (if py_eq k k' then Some v else dict_lookup d k')"
  by (induction d) (auto simp: py_eq_key_class)

lemma env_item_cases:
  assumes "env_item item vm = Inr vm'"
  shows "if entry_included item
         then (\<exists>k v. entry_field item ''key'' = Some k \<and> entry_field item ''value'' = Some v
                 \<and> vm' = dict_store vm k v)
         else vm' = vm"
proof (cases item)
  case (JObj f)
  with assms show ?thesis
    by (auto simp: env_item_obj entry_included_def entry_field_def dict_setitem_def
        split: option.splits if_splits)
qed (use assms in \<open>simp_all add: env_item_not_obj\<close>)

lemma env_loop_keys:
  "env_loop items vm = Inr m \<Longrightarrow>
   (dict_lookup m k \<noteq> None) =
     (dict_lookup vm k \<noteq> None \<or>
      (\<exists>item\<in>set items. entry_included item \<and>
         (\<exists>k'. entry_field item ''key'' = Some k' \<and> py_eq k' k)))"
proof (induction items arbitrary: vm)
  case Nil
  then show ?case by simp
next
  case (Cons item items)
  from Cons.prems obtain vm' where
    step: "env_item item vm = Inr vm'" and rest: "env_loop items vm' = Inr m"
    by (auto split: sum.splits)
  note ih = Cons.IH [OF rest]
  show ?case
  proof (cases "entry_included item")
    case True
    with env_item_cases [OF step] obtain k0 v0 where
      "entry_field item ''key'' = Some k0" "vm' = dict_store vm k0 v0" by auto
    with True ih show ?thesis by (auto simp: dict_lookup_store)
  next
    case False
    with env_item_cases [OF step] have "vm' = vm" by simp
    with False ih show ?thesis by auto
  qed
qed

lemma env_loop_filter:
  "env_loop items vm = Inr m \<Longrightarrow> (\<forall>item\<in>set items. \<not> P item \<longrightarrow> \<not> entry_included item) \<Longrightarrow>
   env_loop (filter P items) vm = Inr m"
proof (induction items arbitrary: vm)
  case Nil
  then show ?case by simp
next
  case (Cons item items)
  from Cons.prems(1) obtain vm' where
    step: "env_item item vm = Inr vm'" and rest: "env_loop items vm' = Inr m"
    by (auto split: sum.splits)
  from Cons.prems(2) have "\<forall>item\<in>set items. \<not> P item \<longrightarrow> \<not> entry_included item" by simp
  note ih = Cons.IH [OF rest this]
  show ?case
  proof (cases "P item")
    case True
    with step ih show ?thesis by simp
  next
    case False
    with Cons.prems(2) have "\<not> entry_included item" by simp
    with env_item_cases [OF step] have "vm' = vm" by simp
    with False ih show ?thesis by simp
  qed
qed

lemma env_loop_keeps:
  "env_loop items vm = Inr m \<Longrightarrow>
   (\<forall>later\<in>set items. entry_included later \<longrightarrow>
      (\<forall>k'. entry_field later ''key'' = Some k' \<longrightarrow> \<not> py_eq k' k)) \<Longrightarrow>
   dict_lookup m k = dict_lookup vm k"
proof (induction items arbitrary: vm)
  case Nil
  then show ?case by simp
next
  case (Cons item items)
  from Cons.prems(1) obtain vm' where
    step: "env_item item vm = Inr vm'" and rest: "env_loop items vm' = Inr m"
    by (auto split: sum.splits)
  from Cons.prems(2) have "dict_lookup m k = dict_lookup vm' k"
    by (intro Cons.IH [OF rest]) simp
  moreover have "dict_lookup vm' k = dict_lookup vm k"
  proof (cases "entry_included item")
    case True
    with env_item_cases [OF step] obtain k0 v0 where
      k0: "entry_field item ''key'' = Some k0" "vm' = dict_store vm k0 v0" by auto
    with True Cons.prems(2) have "\<not> py_eq k0 k" by simp
    with k0 show ?thesis by (simp add: dict_lookup_store)
  next
    case False
    with env_item_cases [OF step] show ?thesis by simp
  qed
  ultimately show ?case by simp
qed

lemma get_environment_map_values:
  "map_of d ''values'' = Some (JArr items) \<Longrightarrow> get_environment_map (JObj d) = env_loop items []"
  by (simp add: get_environment_map_def)

text \<open>
  Claim C7, as stated, fails in its last clause: the key of an entry with \<open>enabled\<close> false
  is in the map when an included entry carries the same key.
\<close>

theorem get_environment_map_disabled_key_present:
  "get_environment_map
     (JObj [(''values'',
        JArr [JObj [(''enabled'', JBool True), (''key'', JStr ''a''), (''value'', JStr ''1'')],
              JObj [(''enabled'', JBool False), (''key'', JStr ''a''), (''value'', JStr ''2'')]])])
     = Inr [(JStr ''a'', JStr ''1'')]
   \<and> dict_lookup [(JStr ''a'', JStr ''1'')] (JStr ''a'') = Some (JStr ''1'')"
  by (simp add: get_environment_map_def env_item_def dict_setitem_def py_eq_def)

text \<open>
  Claim C7, amended.  When the \<open>values\<close> list is processed to the end, the keys of the
  returned map are exactly the keys of the included entries (enabled flag truthy, key and
  value present).  The map is the one the included entries alone give; in particular the
  entries with \<open>enabled\<close> false can be dropped from the document without changing the map,
  whatever their other fields are: the key of such an entry is in the map only when an
  included entry carries an equal key.
\<close>

theorem get_environment_map_included_entries:
  assumes "map_of d ''values'' = Some (JArr items)"
    and "get_environment_map (JObj d) = Inr m"
  shows "(\<forall>k. (dict_lookup m k \<noteq> None) =
            (\<exists>item\<in>set items. entry_included item \<and>
               (\<exists>k'. entry_field item ''key'' = Some k' \<and> py_eq k' k)))
         \<and> get_environment_map (JObj [(''values'', JArr (filter entry_included items))]) = Inr m
         \<and> get_environment_map
             (JObj [(''values'',
                JArr (filter (\<lambda>item. entry_field item ''enabled'' \<noteq> Some (JBool False)) items))])
           = Inr m"
proof -
  from assms have loop: "env_loop items [] = Inr m"
    by (simp add: get_environment_map_values)
  have "\<forall>item\<in>set items. \<not> entry_field item ''enabled'' \<noteq> Some (JBool False) \<longrightarrow> \<not> entry_included item"
    by (simp add: entry_included_def)
  from env_loop_filter [OF loop this] env_loop_filter [OF loop, of entry_included]
    env_loop_keys [OF loop]
  show ?thesis by (simp add: get_environment_map_values)
qed

theorem get_environment_map_included_entries_witness:
  "get_environment_map
     (JObj [(''values'',
        JArr [JObj [(''enabled'', JBool True), (''key'', JStr ''host''), (''value'', JStr ''h'')],
              JObj [(''enabled'', JBool False), (''key'', JStr ''id''), (''value'', JStr ''42'')],
              JObj [(''enabled'', JInt 1), (''key'', JStr ''port'')]])])
     = Inr [(JStr ''host'', JStr ''h'')]
   \<and> get_environment_map
       (JObj [(''values'',
          JArr [JObj [(''enabled'', JBool True), (''key'', JStr ''host''), (''value'', JStr ''h'')],
                JObj [(''enabled'', JInt 1), (''key'', JStr ''port'')]])])
     = Inr [(JStr ''host'', JStr ''h'')]
   \<and> get_environment_map
       (JObj [(''values'',
          JArr [JObj [(''enabled'', JBool True), (''key'', JStr ''host''), (''value'', JStr ''h'')]])])
     = Inr [(JStr ''host'', JStr ''h'')]"
proof -
  let ?e1 = "JObj [(''enabled'', JBool True), (''key'', JStr ''host''), (''value'', JStr ''h'')]"
  let ?e2 = "JObj [(''enabled'', JBool False), (''key'', JStr ''id''), (''value'', JStr ''42'')]"
  let ?e3 = "JObj [(''enabled'', JInt 1), (''key'', JStr ''port'')]"
  let ?d = "[(''values'', JArr [?e1, ?e2, ?e3])]"
  have v: "map_of ?d ''values'' = Some (JArr [?e1, ?e2, ?e3])" by simp
  have r: "get_environment_map (JObj ?d) = Inr [(JStr ''host'', JStr ''h'')]"
    by (simp add: get_environment_map_def env_item_def dict_setitem_def)
  from get_environment_map_included_entries [OF v r] r show ?thesis
    by (simp add: entry_included_def entry_field_def)
qed

text \<open>
  Claim C8.  When the \<open>values\<close> list is processed to the end, an included entry that no later
  included entry repeats the key of gives the map its value for that key: among several
  included entries with one key, the last one wins.
\<close>

theorem get_environment_map_last_wins:
  assumes "map_of d ''values'' = Some (JArr (before @ item # after))"
    and "get_environment_map (JObj d) = Inr m"
    and "entry_included item"
    and "entry_field item ''key'' = Some k"
    and "entry_field item ''value'' = Some v"
    and "\<forall>later\<in>set after. entry_included later \<longrightarrow>
           (\<forall>k'. entry_field later ''key'' = Some k' \<longrightarrow> \<not> py_eq k' k)"
  shows "dict_lookup m k = Some v"
proof -
  from assms(1,2) have "env_loop (before @ item # after) [] = Inr m"
    by (simp add: get_environment_map_values)
  then obtain vm vm' where
    step: "env_item item vm = Inr vm'" and rest: "env_loop after vm' = Inr m"
    by (auto simp: env_loop_append split: sum.splits)
  from env_item_cases [OF step] assms(3,4,5) have "vm' = dict_store vm k v" by simp
  then have "dict_lookup vm' k = Some v"
    by (simp add: dict_lookup_store py_eq_key_class)
  with env_loop_keeps [OF rest assms(6)] show ?thesis by simp
qed

theorem get_environment_map_last_wins_witness:
  "get_environment_map
     (JObj [(''values'',
        JArr [JObj [(''enabled'', JBool True), (''key'', JStr ''id''), (''value'', JStr ''1'')],
              JObj [(''enabled'', JBool True), (''key'', JStr ''id''), (''value'', JStr ''2'')],
              JObj [(''enabled'', JBool True), (''key'', JStr ''host''), (''value'', JStr ''h'')]])])
     = Inr [(JStr ''id'', JStr ''2''), (JStr ''host'', JStr ''h'')]
   \<and> dict_lookup [(JStr ''id'', JStr ''2''), (JStr ''host'', JStr ''h'')] (JStr ''id'')
     = Some (JStr ''2'')"
proof -
  let ?e1 = "JObj [(''enabled'', JBool True), (''key'', JStr ''id''), (''value'', JStr ''1'')]"
  let ?e2 = "JObj [(''enabled'', JBool True), (''key'', JStr ''id''), (''value'', JStr ''2'')]"
  let ?e3 = "JObj [(''enabled'', JBool True), (''key'', JStr ''host''), (''value'', JStr ''h'')]"
  let ?d = "[(''values'', JArr ([?e1] @ ?e2 # [?e3]))]"
  have v: "map_of ?d ''values'' = Some (JArr ([?e1] @ ?e2 # [?e3]))" by simp
  have r: "get_environment_map (JObj ?d) = Inr [(JStr ''id'', JStr ''2''), (JStr ''host'', JStr ''h'')]"
    by (simp add: get_environment_map_def env_item_def dict_setitem_def py_eq_def)
  have i: "entry_included ?e2" by (simp add: entry_included_def entry_field_def)
  have k: "entry_field ?e2 ''key'' = Some (JStr ''id'')" by (simp add: entry_field_def)
  have w: "entry_field ?e2 ''value'' = Some (JStr ''2'')" by (simp add: entry_field_def)
  have l: "\<forall>later\<in>set [?e3]. entry_included later \<longrightarrow>
             (\<forall>k'. entry_field later ''key'' = Some k' \<longrightarrow> \<not> py_eq k' (JStr ''id''))"
    by (simp add: entry_field_def py_eq_def)
  from get_environment_map_last_wins [OF v r i k w l] r show ?thesis by simp
qed

section \<open>Properties of find_and_process_items\<close>

lemma py_getitem_Inr: "py_getitem x k = Inr v \<Longrightarrow> \<exists>d. x = JObj d \<and> map_of d k = Some v"
  by (cases x) (auto split: option.splits)

lemma substitute_error: "substitute env ps url = Inl e \<Longrightarrow> e = TypeError"
  by (induction env ps url rule: substitute.induct) (auto split: option.splits json.splits)

lemma py_getitem_error: "py_getitem x k = Inl e \<Longrightarrow> e = KeyError \<or> e = TypeError"
  by (cases x) (auto split: option.splits)

lemma extract_request_error:
  "extract_request node env = Inl e \<Longrightarrow> e = KeyError \<or> e = TypeError"
  unfolding extract_request_def
  by (auto split: sum.splits json.splits dest!: py_getitem_Inr py_getitem_error
      simp: resolve_url_def dest: substitute_error)

lemma try_request_own: "try_request node env = Inr (own_requests env node)"
proof (cases "extract_request node env")
  case (Inl e)
  with extract_request_error [OF Inl] show ?thesis
    by (auto simp: try_request_def own_requests_def)
next
  case (Inr pair)
  then show ?thesis by (simp add: try_request_def own_requests_def)
qed

lemma own_requests_no_request:
  "map_of d ''request'' = None \<Longrightarrow> own_requests env (JObj d) = []"
  by (simp add: own_requests_def extract_request_def)

lemma own_requests_str: "own_requests env (JStr s) = []"
  by (simp add: own_requests_def extract_request_def)

lemma walk_obj:
  assumes ih: "\<And>has_item sub. py_in ''item'' (JObj d) = Inr has_item \<Longrightarrow> has_item \<Longrightarrow>
       py_getitem (JObj d) ''item'' = Inr sub \<Longrightarrow> isinstance_list sub \<Longrightarrow>
       find_and_process_items sub env =
         (if walkable sub then Inr (concat (map (own_requests env) (dfs_nodes sub)))
          else Inl TypeError)"
  shows "find_and_process_items (JObj d) env =
     (if walkable (JObj d) then Inr (concat (map (own_requests env) (dfs_nodes (JObj d))))
      else Inl TypeError)"
proof (cases "map_of d ''item''")
  case None
  then show ?thesis
    by (cases "map_of d ''request''") (simp_all add: try_request_own own_requests_no_request)
next
  case (Some sub)
  show ?thesis
  proof (cases "isinstance_list sub")
    case False
    with Some show ?thesis
      by (cases sub; cases "map_of d ''request''")
         (simp_all add: try_request_own own_requests_no_request)
  next
    case True
    then obtain items where sub: "sub = JArr items" by (cases sub) simp_all
    from Some sub have "find_and_process_items sub env =
       (if walkable sub then Inr (concat (map (own_requests env) (dfs_nodes sub))) else Inl TypeError)"
      by (intro ih) simp_all
    with Some sub show ?thesis
      by (cases "map_of d ''request''") (simp_all add: try_request_own own_requests_no_request)
  qed
qed

lemma walk_characterisation:
  "find_and_process_items t env =
     (if walkable t then Inr (concat (map (own_requests env) (dfs_nodes t))) else Inl TypeError)"
  "process_list ts env =
     (if walkable_list ts then Inr (concat (map (own_requests env) (dfs_list ts)))
      else Inl TypeError)"
proof (induction t env and ts env rule: find_and_process_items_process_list.induct)
  fix d env
  assume "\<And>has_item sub. py_in ''item'' (JObj d) = Inr has_item \<Longrightarrow> has_item \<Longrightarrow>
       py_getitem (JObj d) ''item'' = Inr sub \<Longrightarrow> isinstance_list sub \<Longrightarrow>
       find_and_process_items sub env =
         (if walkable sub then Inr (concat (map (own_requests env) (dfs_nodes sub)))
          else Inl TypeError)"
  then show "find_and_process_items (JObj d) env =
     (if walkable (JObj d) then Inr (concat (map (own_requests env) (dfs_nodes (JObj d))))
      else Inl TypeError)"
    by (rule walk_obj)
qed (simp_all add: try_request_own own_requests_str)

lemma substitute_returns:
  "(\<exists>u. substitute env ps url = Inr u) = bound_to_strings env ps"
proof (induction ps arbitrary: url)
  case Nil
  show ?case by (simp add: bound_to_strings_def)
next
  case (Cons p ps)
  show ?case
  proof (cases "dict_lookup env (JStr p)")
    case None
    with Cons.IH [of url] show ?thesis by (simp add: bound_to_strings_def)
  next
    case (Some v)
    show ?thesis
    proof (cases v)
      case (JStr new)
      with Some Cons.IH [of "replace url (''{{'' @ p @ ''}}'') new"] show ?thesis
        by (simp add: bound_to_strings_def)
    qed (use Some in \<open>simp_all add: bound_to_strings_def\<close>)
  qed
qed

lemma extract_request_raw:
  "extract_request node env =
     (case request_raw node of
        None \<Rightarrow> extract_request node env
      | Some raw \<Rightarrow>
          (case resolve_url env raw of
             Inl e \<Rightarrow> Inl e
           | Inr u \<Rightarrow>
               Inr (case node of JObj d \<Rightarrow>
                      (case map_of d ''request'' of Some (JObj rq) \<Rightarrow>
                         (case map_of rq ''method'' of None \<Rightarrow> JStr ''N/A'' | Some m \<Rightarrow> m)), u)))"
  by (auto simp: request_raw_def extract_request_def split: json.splits option.splits sum.splits)

lemma extract_request_no_raw:
  "request_raw node = None \<Longrightarrow> \<exists>e. extract_request node env = Inl e"
  unfolding request_raw_def extract_request_def
  by (cases node) (auto split: json.splits option.splits sum.splits)

lemma extract_request_returns:
  "(\<exists>p. extract_request node env = Inr p) = resolvable env node"
proof (cases "request_raw node")
  case None
  with extract_request_no_raw [OF None, of env] show ?thesis
    by (auto simp: resolvable_def)
next
  case (Some raw)
  have "(\<exists>p. extract_request node env = Inr p) = (\<exists>u. resolve_url env raw = Inr u)"
    by (subst extract_request_raw) (auto simp: Some split: sum.splits)
  with Some show ?thesis
    by (simp add: resolvable_def resolve_url_def substitute_returns)
qed

lemma length_own_requests:
  "length (own_requests env node) = (if resolvable env node then 1 else 0)"
  using extract_request_returns [of node env]
  by (cases "extract_request node env") (auto simp: own_requests_def)

lemma length_concat_own_requests:
  "length (concat (map (own_requests env) nodes)) = length (filter (resolvable env) nodes)"
  by (induction nodes) (simp_all add: length_own_requests)

lemma dict_lookup_in_set: "dict_lookup env k = Some v \<Longrightarrow> \<exists>k'. (k', v) \<in> set env"
  by (induction env) (auto split: if_splits)

lemma all_strings_bound:
  "list_all (\<lambda>(k, v). is_str v) env \<Longrightarrow> bound_to_strings env names"
  by (auto simp: bound_to_strings_def list_all_iff split: option.splits dest!: dict_lookup_in_set)

lemma map_of_filter_key:
  "map_of (filter (\<lambda>(k, v). k \<noteq> a) d) k' = (if k' = a then None else map_of d k')"
  by (induction d) auto

lemma resolve_url_type_error:
  assumes "n \<in> set ps" "dict_lookup env (JStr n) = Some v" "\<not> is_str v"
  shows "substitute env ps url = Inl TypeError"
proof -
  from assms have "\<not> bound_to_strings env ps"
    unfolding bound_to_strings_def list_all_iff by (intro notI) (drule bspec, assumption, simp)
  with substitute_returns [of env ps url] obtain e where "substitute env ps url = Inl e"
    by (cases "substitute env ps url") auto
  with substitute_error [OF this] show ?thesis by simp
qed

lemma own_requests_resolvable:
  "request_raw node = Some raw \<Longrightarrow> bound_to_strings env (findall raw) \<Longrightarrow>
   \<exists>u. resolve_url env raw = Inr u \<and> own_requests env node = [(request_method node, u)]"
proof -
  assume raw: "request_raw node = Some raw" and b: "bound_to_strings env (findall raw)"
  from b substitute_returns [of env "findall raw" raw] obtain u where
    u: "resolve_url env raw = Inr u" by (auto simp: resolve_url_def)
  from raw u have "extract_request node env = Inr (request_method node, u)"
    by (subst extract_request_raw)
       (auto simp: request_method_def request_raw_def split: json.splits option.splits)
  with u show ?thesis by (simp add: own_requests_def)
qed

lemma own_requests_not_resolvable:
  "\<not> resolvable env node \<Longrightarrow> own_requests env node = []"
  using length_own_requests [of env node] by simp

text \<open>
  Claim C2, as stated, fails in two ways.  A node that is neither a dictionary nor a list
  makes the test \<open>'item' in collection_item\<close> raise \<open>TypeError\<close> outside the \<open>try\<close> block, and
  the requests of its siblings are lost with it.  And a node with a well-formed request
  descriptor is left out of the result when a placeholder of its raw URL is bound to a
  value that is not a string.
\<close>

theorem find_and_process_items_raises_on_null_item:
  "find_and_process_items
     (JArr [JObj [(''request'', JObj [(''method'', JStr ''GET''),
                                       (''url'', JObj [(''raw'', JStr ''https://api/users'')])])],
            JNull]) []
   = Inl TypeError
   \<and> find_and_process_items
       (JArr [JObj [(''request'', JObj [(''url'', JObj [(''raw'', JStr ''{{id}}/x'')])])]])
       [(JStr ''id'', JInt 42)]
     = Inr []
   \<and> well_formed_request
       (JObj [(''request'', JObj [(''url'', JObj [(''raw'', JStr ''{{id}}/x'')])])])"
  by (simp add: try_request_def extract_request_def resolve_url_def brace_def py_eq_def
        well_formed_request_def request_raw_def)

text \<open>
  Claim C2, amended.  \<open>find_and_process_items\<close> raises \<open>TypeError\<close> on the trees with a
  visited node that is \<open>None\<close>, a boolean, a number or a string with \<open>'item'\<close> in it, and on
  every other tree it returns, whatever the request descriptors look like.  What it
  returns is the concatenation, over the visited nodes in order, of what each node adds: a
  node that is not resolvable (no well-formed request descriptor, or a placeholder bound to
  a value that is not a string) is skipped and adds nothing, and the walk goes on with its
  siblings and ancestors; a node with a well-formed descriptor whose placeholders are bound
  to strings adds its method and its resolved URL.
\<close>

theorem find_and_process_items_on_walkable:
  "find_and_process_items t env_map
     = (if walkable t then Inr (concat (map (own_requests env_map) (dfs_nodes t)))
        else Inl TypeError)
   \<and> (\<forall>node. \<not> resolvable env_map node \<longrightarrow> own_requests env_map node = [])
   \<and> (\<forall>node raw. request_raw node = Some raw \<and> bound_to_strings env_map (findall raw) \<longrightarrow>
         (\<exists>u. resolve_url env_map raw = Inr u
            \<and> own_requests env_map node = [(request_method node, u)]))"
proof (intro conjI allI impI)
  show "find_and_process_items t env_map
     = (if walkable t then Inr (concat (map (own_requests env_map) (dfs_nodes t)))
        else Inl TypeError)"
    by (rule walk_characterisation)
next
  fix node
  assume "\<not> resolvable env_map node"
  then show "own_requests env_map node = []" by (rule own_requests_not_resolvable)
next
  fix node raw
  assume "request_raw node = Some raw \<and> bound_to_strings env_map (findall raw)"
  then show "\<exists>u. resolve_url env_map raw = Inr u
            \<and> own_requests env_map node = [(request_method node, u)]"
    by (auto intro: own_requests_resolvable)
qed

theorem find_and_process_items_on_walkable_witness:
  "find_and_process_items
       (JArr [JObj [(''request'', JInt 3)],
              JObj [(''item'',
                     JArr [JObj [(''request'',
                                  JObj [(''method'', JStr ''GET''),
                                        (''url'', JObj [(''raw'', JStr ''{{host}}/users'')])])]])],
              JStr ''request''])
       [(JStr ''host'', JStr ''api'')]
     = Inr [(JStr ''GET'', ''api/users'')]
   \<and> find_and_process_items (JArr [JObj [(''item'', JArr [JBool True])]]) [] = Inl TypeError"
proof -
  let ?bad = "JObj [(''request'', JInt 3)]"
  let ?good = "JObj [(''request'',
                     JObj [(''method'', JStr ''GET''),
                           (''url'', JObj [(''raw'', JStr ''{{host}}/users'')])])]"
  let ?folder = "JObj [(''item'', JArr [?good])]"
  let ?t = "JArr [?bad, ?folder, JStr ''request'']"
  let ?env = "[(JStr ''host'', JStr ''api'')]"
  note inst = find_and_process_items_on_walkable [of ?t ?env]
  have r: "request_raw ?good = Some ''{{host}}/users''
      \<and> bound_to_strings ?env (findall ''{{host}}/users'')"
    by (simp add: request_raw_def bound_to_strings_def brace_def py_eq_def)
  from inst [THEN conjunct2, THEN conjunct2, rule_format, OF r]
  have good: "own_requests ?env ?good = [(JStr ''GET'', ''api/users'')]"
    by (simp add: request_method_def resolve_url_def brace_def py_eq_def)
  have "\<not> resolvable ?env ?bad" "\<not> resolvable ?env ?folder" "\<not> resolvable ?env (JStr ''request'')"
    by (simp_all add: resolvable_def request_raw_def)
  with inst [THEN conjunct2, THEN conjunct1, rule_format]
  have bad: "own_requests ?env ?bad = []" "own_requests ?env ?folder = []"
    "own_requests ?env (JStr ''request'') = []"
    by blast+
  from inst [THEN conjunct1] good bad
  have 1: "find_and_process_items ?t ?env = Inr [(JStr ''GET'', ''api/users'')]"
    by simp
  from find_and_process_items_on_walkable
         [of "JArr [JObj [(''item'', JArr [JBool True])]]" "[]", THEN conjunct1]
  have 2: "find_and_process_items (JArr [JObj [(''item'', JArr [JBool True])]]) [] = Inl TypeError"
    by simp
  from 1 2 show ?thesis by simp
qed

text \<open>
  Claim C5.  On a tree the walk gets through, the output is the concatenation, over the
  visited nodes in depth-first, left-to-right order, of what each node adds: nothing is
  dropped, merged or reordered.  For a node with an \<open>item\<close> list, the output is the output of
  the list followed by the node's own request.
\<close>

theorem find_and_process_items_order:
  assumes "walkable t"
  shows "find_and_process_items t env_map
           = Inr (concat (map (own_requests env_map) (dfs_nodes t)))
         \<and> (\<forall>d items. t = JObj d \<and> map_of d ''item'' = Some (JArr items) \<longrightarrow>
               (\<exists>nested. find_and_process_items (JArr items) env_map = Inr nested
                  \<and> find_and_process_items t env_map = Inr (nested @ own_requests env_map t)))"
  using assms by (auto simp: walk_characterisation)

theorem find_and_process_items_order_witness:
  "walkable
     (JObj [(''request'', JObj [(''method'', JStr ''POST''), (''url'', JObj [(''raw'', JStr ''b'')])]),
            (''item'', JArr [JObj [(''request'', JObj [(''url'', JObj [(''raw'', JStr ''a'')])])],
                             JObj [(''request'', JObj [(''method'', JStr ''GET''),
                                                       (''url'', JObj [(''raw'', JStr ''a'')])])]])])
   \<and> find_and_process_items
       (JObj [(''request'', JObj [(''method'', JStr ''POST''), (''url'', JObj [(''raw'', JStr ''b'')])]),
              (''item'', JArr [JObj [(''request'', JObj [(''url'', JObj [(''raw'', JStr ''a'')])])],
                               JObj [(''request'', JObj [(''method'', JStr ''GET''),
                                                         (''url'', JObj [(''raw'', JStr ''a'')])])]])]) []
     = Inr [(JStr ''N/A'', ''a''), (JStr ''GET'', ''a''), (JStr ''POST'', ''b'')]"
proof -
  let ?t = "JObj [(''request'', JObj [(''method'', JStr ''POST''), (''url'', JObj [(''raw'', JStr ''b'')])]),
            (''item'', JArr [JObj [(''request'', JObj [(''url'', JObj [(''raw'', JStr ''a'')])])],
                             JObj [(''request'', JObj [(''method'', JStr ''GET''),
                                                       (''url'', JObj [(''raw'', JStr ''a'')])])]])]"
  have w: "walkable ?t" by simp
  from find_and_process_items_order [OF w, of "[]"]
  have "find_and_process_items ?t [] = Inr (concat (map (own_requests []) (dfs_nodes ?t)))"
    by (rule conjunct1)
  with w show ?thesis
    by (simp add: own_requests_def extract_request_def resolve_url_def)
qed

text \<open>
  Claim C6, as stated, fails: a node with a well-formed request descriptor is left out of
  the output when a placeholder of its raw URL is bound to a value that is not a string.
\<close>

theorem find_and_process_items_length_counterexample:
  "find_and_process_items
     (JArr [JObj [(''request'', JObj [(''method'', JStr ''GET''),
                                       (''url'', JObj [(''raw'', JStr ''http://h:{{port}}/'')])])]])
     [(JStr ''port'', JInt 8080)] = Inr []
   \<and> length (filter well_formed_request
       (dfs_nodes
          (JArr [JObj [(''request'', JObj [(''method'', JStr ''GET''),
                                            (''url'', JObj [(''raw'', JStr ''http://h:{{port}}/'')])])]])))
     = 1"
  by (simp add: try_request_def extract_request_def resolve_url_def brace_def py_eq_def
        well_formed_request_def request_raw_def)

text \<open>
  Claim C6, amended.  On a tree the walk gets through, the length of the output is the
  number of visited nodes that expose a well-formed request descriptor and whose
  placeholders are bound to strings; when every value of the variable map is a string, it is
  the number of nodes that expose a well-formed request descriptor.
\<close>

theorem find_and_process_items_length:
  assumes "walkable t"
  shows "\<exists>found. find_and_process_items t env_map = Inr found
           \<and> length found = length (filter (\<lambda>node. well_formed_request node \<and> resolvable env_map node) (dfs_nodes t))
           \<and> (list_all (\<lambda>(k, v). is_str v) env_map \<longrightarrow>
                length found = length (filter well_formed_request (dfs_nodes t)))"
proof -
  have eq: "(well_formed_request node \<and> resolvable env_map node) = resolvable env_map node" for node
    by (auto simp: well_formed_request_def resolvable_def split: option.splits)
  have "list_all (\<lambda>(k, v). is_str v) env_map \<Longrightarrow> resolvable env_map node = well_formed_request node" for node
    by (auto simp: well_formed_request_def resolvable_def all_strings_bound split: option.splits)
  with assms show ?thesis
    by (auto simp: walk_characterisation length_concat_own_requests eq cong: filter_cong)
qed

theorem find_and_process_items_length_witness:
  "walkable
     (JArr [JObj [(''item'', JArr [JObj [(''request'', JObj [(''url'', JObj [(''raw'', JStr ''{{a}}'')])])]])],
            JObj [(''request'', JObj [(''url'', JStr ''{{a}}'')])]])
   \<and> (\<exists>found. find_and_process_items
         (JArr [JObj [(''item'', JArr [JObj [(''request'', JObj [(''url'', JObj [(''raw'', JStr ''{{a}}'')])])]])],
                JObj [(''request'', JObj [(''url'', JStr ''{{a}}'')])]])
         [(JStr ''a'', JStr ''1'')] = Inr found
       \<and> length found = 1)"
proof -
  let ?t = "JArr [JObj [(''item'', JArr [JObj [(''request'', JObj [(''url'', JObj [(''raw'', JStr ''{{a}}'')])])]])],
            JObj [(''request'', JObj [(''url'', JStr ''{{a}}'')])]]"
  have w: "walkable ?t" by simp
  have s: "list_all (\<lambda>(k, v). is_str v) [(JStr ''a'', JStr ''1'')]" by simp
  have n: "length (filter well_formed_request (dfs_nodes ?t)) = 1"
    by (simp add: well_formed_request_def request_raw_def)
  from find_and_process_items_length [OF w, of "[(JStr ''a'', JStr ''1'')]"] s n w
  show ?thesis by auto
qed

text \<open>
  Claim C10.  When the request descriptor of a node is well-formed and its raw URL has a
  placeholder that the variable map binds to a value that is not a string, the extraction
  raises \<open>TypeError\<close>, the \<open>try\<close> statement catches it and appends nothing, and the walk
  gives what it gives for the same node without its \<open>request\<close>.
\<close>

theorem non_string_value_skips_request:
  assumes "request_raw (JObj d) = Some raw"
    and "n \<in> set (findall raw)"
    and "dict_lookup env_map (JStr n) = Some v"
    and "\<not> is_str v"
  shows "extract_request (JObj d) env_map = Inl TypeError
         \<and> try_request (JObj d) env_map = Inr []
         \<and> find_and_process_items (JObj d) env_map
             = find_and_process_items (JObj (filter (\<lambda>(k, v). k \<noteq> ''request'') d)) env_map"
proof -
  from assms(2,3,4) have "resolve_url env_map raw = Inl TypeError"
    by (simp add: resolve_url_def resolve_url_type_error)
  with assms(1) have x: "extract_request (JObj d) env_map = Inl TypeError"
    by (subst extract_request_raw) simp
  then have t: "try_request (JObj d) env_map = Inr []"
    by (simp add: try_request_def)
  from assms(1) have r: "map_of d ''request'' \<noteq> None"
    by (auto simp: request_raw_def split: option.splits)
  have "find_and_process_items (JObj d) env_map
       = find_and_process_items (JObj (filter (\<lambda>(k, v). k \<noteq> ''request'') d)) env_map"
    using r t by (auto simp: map_of_filter_key split: sum.splits)
  with x t show ?thesis by simp
qed

theorem non_string_value_skips_request_witness:
  "request_raw (JObj [(''request'', JObj [(''method'', JStr ''GET''),
                                          (''url'', JObj [(''raw'', JStr ''http://h:{{port}}/'')])])])
     = Some ''http://h:{{port}}/''
   \<and> ''port'' \<in> set (findall ''http://h:{{port}}/'')
   \<and> try_request (JObj [(''request'', JObj [(''method'', JStr ''GET''),
                                          (''url'', JObj [(''raw'', JStr ''http://h:{{port}}/'')])])])
       [(JStr ''port'', JInt 8080)] = Inr []"
proof -
  let ?d = "[(''request'', JObj [(''method'', JStr ''GET''),
                                 (''url'', JObj [(''raw'', JStr ''http://h:{{port}}/'')])])]"
  have r: "request_raw (JObj ?d) = Some ''http://h:{{port}}/''"
    by (simp add: request_raw_def)
  have n: "''port'' \<in> set (findall ''http://h:{{port}}/'')"
    by (simp add: brace_def)
  have l: "dict_lookup [(JStr ''port'', JInt 8080)] (JStr ''port'') = Some (JInt 8080)"
    by (simp add: py_eq_def)
  have v: "\<not> is_str (JInt 8080)" by simp
  from non_string_value_skips_request [OF r n l v] r n show ?thesis by simp
qed

section \<open>Properties of the substitution\<close>

lemma render_all_simps [simp]:
  "render_all [] = []"
  "render_all (g # segs) = render g @ render_all segs"
  "render_all (xs @ ys) = render_all xs @ render_all ys"
  by (simp_all add: render_all_def)

lemma render_all_Lit [simp]: "render_all (map Lit v) = v"
  by (induction v) simp_all

lemma expand_all_simps [simp]:
  "expand_all \<sigma> [] = []"
  "expand_all \<sigma> (g # segs) = expand \<sigma> g @ expand_all \<sigma> segs"
  by (simp_all add: expand_all_def)

lemma match_token:
  assumes "n \<noteq> []" "plain n"
  shows "match_placeholder (''{{'' @ n @ ''}}'' @ rest) = Some (n, rest)"
proof -
  have b: "brace (CHR ''}'')" by (simp add: brace_def)
  from assms(2) have all: "\<forall>c\<in>set n. \<not> brace c" by (simp add: plain_def list_all_iff)
  then have "takeWhile (\<lambda>c. \<not> brace c) (n @ CHR ''}'' # CHR ''}'' # rest) = n"
    using b by (simp add: takeWhile_tail)
  moreover from all b have "dropWhile (\<lambda>c. \<not> brace c) (n @ CHR ''}'' # CHR ''}'' # rest)
      = CHR ''}'' # CHR ''}'' # rest"
    by (simp add: dropWhile_append2)
  ultimately show ?thesis using assms(1) by simp
qed

lemma match_literal: "\<not> brace c \<Longrightarrow> match_placeholder (c # rest) = None"
  by (cases rest) (auto simp: brace_def)

lemma startswith_append: "startswith p s \<Longrightarrow> s = p @ drop (length p) s"
  by (induction p s rule: startswith.induct) auto

lemma match_placeholder_Some:
  assumes "match_placeholder s = Some (n, rest)"
  shows "s = ''{{'' @ n @ ''}}'' @ rest \<and> n \<noteq> [] \<and> plain n"
proof (cases s rule: match_placeholder.cases)
  case (1 a b t)
  let ?P = "\<lambda>c. \<not> brace c"
  from assms 1 have ab: "a = CHR ''{''" "b = CHR ''{''"
    and n: "n = takeWhile ?P t" "n \<noteq> []"
    and sw: "startswith ''}}'' (dropWhile ?P t)"
    and r: "rest = drop 2 (dropWhile ?P t)"
    by (auto simp: Let_def split: if_splits)
  from startswith_append [OF sw] r have "dropWhile ?P t = ''}}'' @ rest"
    by (simp add: numeral_2_eq_2)
  with n have "t = n @ ''}}'' @ rest"
    using takeWhile_dropWhile_id [of ?P t] by simp
  moreover from n have "plain n"
    by (auto simp: plain_def list_all_iff dest: set_takeWhileD)
  ultimately show ?thesis using 1 ab n by simp
qed (use assms in simp_all)


lemma match_token_cons:
  "n \<noteq> [] \<Longrightarrow> plain n \<Longrightarrow>
   match_placeholder (CHR ''{'' # CHR ''{'' # n @ CHR ''}'' # CHR ''}'' # rest) = Some (n, rest)"
  using match_token [of n rest] by simp

lemma tidy_segs: "tidy s \<Longrightarrow> \<exists>segs. list_all seg_ok segs \<and> render_all segs = s"
proof (induction s rule: tidy.induct)
  case 1
  have "list_all seg_ok [] \<and> render_all [] = []" by simp
  then show ?case by blast
next
  case (2 c cs)
  show ?case
  proof (cases "match_placeholder (c # cs)")
    case None
    with "2.prems" have c: "\<not> brace c" and t: "tidy cs" by simp_all
    from "2.IH"(1) [OF None t] obtain segs where "list_all seg_ok segs" "render_all segs = cs"
      by blast
    with c have "list_all seg_ok (Lit c # segs) \<and> render_all (Lit c # segs) = c # cs" by simp
    then show ?thesis by blast
  next
    case (Some m)
    obtain n rest where m: "m = (n, rest)" by (cases m)
    with Some "2.prems" have t: "tidy rest" by simp
    from "2.IH"(2) [OF Some m [symmetric] t] obtain segs where
      segs: "list_all seg_ok segs" "render_all segs = rest" by blast
    from match_placeholder_Some [OF Some [unfolded m]]
    have "c # cs = ''{{'' @ n @ ''}}'' @ rest" "n \<noteq> []" "plain n" by simp_all
    with segs have "list_all seg_ok (Tok n # segs) \<and> render_all (Tok n # segs) = c # cs"
      by simp
    then show ?thesis by blast
  qed
qed

lemma findall_Lit: "\<not> brace c \<Longrightarrow> findall (c # rest) = findall rest"
  by (simp add: match_literal del: match_placeholder.simps)

lemma findall_Tok:
  "n \<noteq> [] \<Longrightarrow> plain n \<Longrightarrow>
   findall (CHR ''{'' # CHR ''{'' # n @ CHR ''}'' # CHR ''}'' # rest) = n # findall rest"
  by (simp add: match_token_cons del: match_placeholder.simps)

lemma findall_segs: "list_all seg_ok segs \<Longrightarrow> findall (render_all segs) = tok_names segs"
proof (induction segs)
  case Nil
  show ?case by simp
next
  case (Cons g segs)
  then show ?case
    by (cases g) (simp_all add: findall_Lit findall_Tok del: findall.simps)
qed

lemma substitute_once_Lit:
  "\<not> brace c \<Longrightarrow> substitute_once env (c # rest) = c # substitute_once env rest"
  by (simp add: match_literal del: match_placeholder.simps)

lemma substitute_once_Tok:
  "n \<noteq> [] \<Longrightarrow> plain n \<Longrightarrow>
   substitute_once env (CHR ''{'' # CHR ''{'' # n @ CHR ''}'' # CHR ''}'' # rest)
     = (case string_bindings env n of
          Some v \<Rightarrow> v
        | None \<Rightarrow> CHR ''{'' # CHR ''{'' # n @ CHR ''}'' # CHR ''}'' # []) @ substitute_once env rest"
  by (simp add: match_token_cons string_bindings_def del: match_placeholder.simps
      split: option.splits json.splits)

lemma substitute_once_segs:
  "list_all seg_ok segs \<Longrightarrow>
   substitute_once env (render_all segs) = render_all (expand_all (string_bindings env) segs)"
proof (induction segs)
  case Nil
  show ?case by simp
next
  case (Cons g segs)
  show ?case
  proof (cases g)
    case (Lit c)
    with Cons show ?thesis by (simp add: substitute_once_Lit del: substitute_once.simps)
  next
    case (Tok n)
    with Cons show ?thesis
      by (simp add: substitute_once_Tok del: substitute_once.simps split: option.splits)
  qed
qed

lemma replace_plain:
  "plain w \<Longrightarrow> replace (w @ rest) (CHR ''{'' # old) new = w @ replace rest (CHR ''{'' # old) new"
  by (induction w) (auto simp: plain_def brace_def)

lemma startswith_name:
  "plain p \<Longrightarrow> plain n \<Longrightarrow>
   startswith (p @ CHR ''}'' # CHR ''}'' # []) (n @ CHR ''}'' # CHR ''}'' # rest) = (p = n)"
proof (induction p arbitrary: n)
  case Nil
  then show ?case by (cases n) (auto simp: plain_def brace_def)
next
  case (Cons b p)
  then show ?case by (cases n) (auto simp: plain_def brace_def)
qed

lemma startswith_self: "startswith p (p @ rest)"
  by (induction p) simp_all

lemma replace_token_same:
  "replace (CHR ''{'' # CHR ''{'' # p @ CHR ''}'' # CHR ''}'' # rest)
           (CHR ''{'' # CHR ''{'' # p @ CHR ''}'' # CHR ''}'' # []) new
   = new @ replace rest (CHR ''{'' # CHR ''{'' # p @ CHR ''}'' # CHR ''}'' # []) new"
proof -
  have "startswith (p @ CHR ''}'' # CHR ''}'' # []) (p @ CHR ''}'' # CHR ''}'' # rest)"
    using startswith_self [of "p @ CHR ''}'' # CHR ''}'' # []" rest] by simp
  then show ?thesis by simp
qed

lemma replace_token_other:
  assumes "plain p" "plain n" "n \<noteq> []" "p \<noteq> n"
  shows "replace (CHR ''{'' # CHR ''{'' # n @ CHR ''}'' # CHR ''}'' # rest)
           (CHR ''{'' # CHR ''{'' # p @ CHR ''}'' # CHR ''}'' # []) new
   = CHR ''{'' # CHR ''{'' # n @ CHR ''}'' # CHR ''}'' # 
       replace rest (CHR ''{'' # CHR ''{'' # p @ CHR ''}'' # CHR ''}'' # []) new"
proof -
  let ?old = "CHR ''{'' # CHR ''{'' # p @ CHR ''}'' # CHR ''}'' # []"
  from assms(2,3) obtain a n' where n: "n = a # n'" "a \<noteq> CHR ''{''"
    by (cases n) (auto simp: plain_def brace_def)
  have 1: "replace (CHR ''{'' # CHR ''{'' # n @ CHR ''}'' # CHR ''}'' # rest) ?old new
      = CHR ''{'' # replace (CHR ''{'' # n @ CHR ''}'' # CHR ''}'' # rest) ?old new"
    using assms by (simp add: startswith_name)
  have 2: "replace (CHR ''{'' # n @ CHR ''}'' # CHR ''}'' # rest) ?old new
      = CHR ''{'' # replace (n @ CHR ''}'' # CHR ''}'' # rest) ?old new"
    using n by simp
  have 3: "replace (n @ CHR ''}'' # CHR ''}'' # rest) ?old new
      = n @ replace (CHR ''}'' # CHR ''}'' # rest) ?old new"
    using assms(2) by (rule replace_plain)
  have 4: "replace (CHR ''}'' # CHR ''}'' # rest) ?old new = CHR ''}'' # CHR ''}'' # replace rest ?old new"
    by simp
  show ?thesis by (simp only: 1 2 3 4 append_Cons append_Nil)
qed

lemma replace_Lit:
  "\<not> brace c \<Longrightarrow> replace (c # rest) (CHR ''{'' # old) new = c # replace rest (CHR ''{'' # old) new"
  by (auto simp: brace_def)

lemma replace_segs:
  assumes "p \<noteq> []" "plain p"
  shows "list_all seg_ok segs \<Longrightarrow>
     replace (render_all segs) (''{{'' @ p @ ''}}'') new
       = render_all (expand_all (Map.empty(p \<mapsto> new)) segs)"
proof (induction segs)
  case Nil
  show ?case by simp
next
  case (Cons g segs)
  show ?case
  proof (cases g)
    case (Lit c)
    with Cons show ?thesis by (simp add: replace_Lit del: replace.simps)
  next
    case (Tok n)
    show ?thesis
    proof (cases "n = p")
      case True
      with Tok Cons show ?thesis by (simp add: replace_token_same del: replace.simps)
    next
      case False
      with Tok Cons assms show ?thesis by (simp add: replace_token_other del: replace.simps)
    qed
  qed
qed


lemma expand_all_Lit [simp]: "expand_all \<sigma> (map Lit v) = map Lit v"
  by (induction v) simp_all

lemma expand_all_append [simp]:
  "expand_all \<sigma> (xs @ ys) = expand_all \<sigma> xs @ expand_all \<sigma> ys"
  by (simp add: expand_all_def)

lemma seg_ok_Lit: "plain v \<Longrightarrow> list_all seg_ok (map Lit v)"
  by (induction v) (simp_all add: plain_def)

lemma seg_ok_expand_all:
  "list_all seg_ok segs \<Longrightarrow> plain v \<Longrightarrow> list_all seg_ok (expand_all (Map.empty(p \<mapsto> v)) segs)"
proof (induction segs)
  case Nil
  show ?case by simp
next
  case (Cons g segs)
  then show ?case by (cases g) (simp_all add: seg_ok_Lit)
qed

lemma expand_all_twice:
  "expand_all \<tau> (expand_all (Map.empty(p \<mapsto> v)) segs) = expand_all (\<tau>(p \<mapsto> v)) segs"
proof (induction segs)
  case Nil
  show ?case by simp
next
  case (Cons g segs)
  then show ?case by (cases g) simp_all
qed

lemma expand_all_cong:
  "(\<And>n. n \<in> set (tok_names segs) \<Longrightarrow> \<sigma> n = \<tau> n) \<Longrightarrow> expand_all \<sigma> segs = expand_all \<tau> segs"
proof (induction segs)
  case Nil
  show ?case by simp
next
  case (Cons g segs)
  then show ?case by (cases g) simp_all
qed

lemma tok_names_ok:
  "list_all seg_ok segs \<Longrightarrow> list_all (\<lambda>p. p \<noteq> [] \<and> plain p) (tok_names segs)"
  by (induction segs rule: tok_names.induct) simp_all

lemma substitute_segs:
  "list_all (\<lambda>p. p \<noteq> [] \<and> plain p) ps \<Longrightarrow> list_all seg_ok segs \<Longrightarrow>
   bound_to_plain_strings env ps \<Longrightarrow>
   substitute env ps (render_all segs)
     = Inr (render_all (expand_all (string_bindings env |` set ps) segs))"
proof (induction ps arbitrary: segs)
  case Nil
  have "expand_all Map.empty segs = segs"
    by (induction segs rule: tok_names.induct) simp_all
  then show ?case by simp
next
  case (Cons p ps)
  from Cons.prems have p: "p \<noteq> []" "plain p" and ps: "list_all (\<lambda>p. p \<noteq> [] \<and> plain p) ps"
    and bound: "bound_to_plain_strings env ps"
    by (simp_all add: bound_to_plain_strings_def)
  show ?case
  proof (cases "dict_lookup env (JStr p)")
    case None
    then have "string_bindings env |` set (p # ps) = string_bindings env |` set ps"
      by (auto simp: restrict_map_def string_bindings_def)
    with None Cons.IH [OF ps Cons.prems(2) bound] show ?thesis by simp
  next
    case (Some x)
    with Cons.prems(3) obtain v where v: "x = JStr v" "plain v"
      by (cases x) (simp_all add: bound_to_plain_strings_def)
    let ?segs = "expand_all (Map.empty(p \<mapsto> v)) segs"
    from Some v have "string_bindings env p = Some v" by (simp add: string_bindings_def)
    then have m: "(string_bindings env |` set ps)(p \<mapsto> v) = string_bindings env |` set (p # ps)"
      by (auto simp: restrict_map_def)
    have "substitute env (p # ps) (render_all segs) = substitute env ps (render_all ?segs)"
      using Some v replace_segs [OF p Cons.prems(2), of v] by simp
    also have "\<dots> = Inr (render_all (expand_all (string_bindings env |` set ps) ?segs))"
      by (rule Cons.IH [OF ps seg_ok_expand_all [OF Cons.prems(2) v(2)] bound])
    finally show ?thesis by (simp add: expand_all_twice m)
  qed
qed

text \<open>
  Claim C4, as stated, fails in two ways.  A value that holds the token of a placeholder
  processed later is replaced in its turn, so the occurrence of \<open>{{a}}\<close> does not end up as
  the value of \<open>a\<close>; and a value put between braces that were no token can make up a new
  token, which a later pass replaces.  The second component of each line is the
  single-pass substitution.
\<close>

theorem resolve_url_not_simultaneous:
  "resolve_url [(JStr ''a'', JStr ''{{b}}''), (JStr ''b'', JStr ''1'')] ''{{a}}-{{b}}'' = Inr ''1-1''
   \<and> substitute_once [(JStr ''a'', JStr ''{{b}}''), (JStr ''b'', JStr ''1'')] ''{{a}}-{{b}}''
       = ''{{b}}-1''
   \<and> resolve_url [(JStr ''a'', JStr ''b''), (JStr ''b'', JStr ''Z'')] ''{{{{a}}}}{{b}}'' = Inr ''ZZ''
   \<and> substitute_once [(JStr ''a'', JStr ''b''), (JStr ''b'', JStr ''Z'')] ''{{{{a}}}}{{b}}''
       = ''{{b}}Z''"
  by (simp add: resolve_url_def brace_def py_eq_def)

text \<open>
  Claim C4, amended.  For a tidy raw URL whose placeholders are bound to plain strings (or
  not bound), the resolved URL is the single-pass substitution: every occurrence of every
  token whose name is a key of the map is replaced by that key's value, and every token
  whose name is not in the map is left as it is.
\<close>

theorem resolve_url_simultaneous:
  assumes "tidy raw_url" and "bound_to_plain_strings env_map (findall raw_url)"
  shows "resolve_url env_map raw_url = Inr (substitute_once env_map raw_url)"
proof -
  from tidy_segs [OF assms(1)] obtain segs where
    ok: "list_all seg_ok segs" and raw: "render_all segs = raw_url" by blast
  from ok have names: "findall raw_url = tok_names segs"
    using findall_segs raw by auto
  have "expand_all (string_bindings env_map |` set (tok_names segs)) segs
      = expand_all (string_bindings env_map) segs"
    by (rule expand_all_cong) simp
  with substitute_segs [OF tok_names_ok [OF ok] ok, of env_map] assms(2) names
  have "substitute env_map (tok_names segs) (render_all segs)
      = Inr (render_all (expand_all (string_bindings env_map) segs))"
    by simp
  with names raw substitute_once_segs [OF ok, of env_map] show ?thesis
    by (simp add: resolve_url_def)
qed

theorem resolve_url_simultaneous_witness:
  "tidy ''{{host}}/v1/{{id}}/{{id}}''
   \<and> resolve_url [(JStr ''host'', JStr ''api.example.com''), (JStr ''id'', JStr ''42'')]
         ''{{host}}/v1/{{id}}/{{id}}'' = Inr ''api.example.com/v1/42/42''
   \<and> resolve_url [] ''{{base}}/x'' = Inr ''{{base}}/x''"
proof -
  let ?env = "[(JStr ''host'', JStr ''api.example.com''), (JStr ''id'', JStr ''42'')]"
  have t: "tidy ''{{host}}/v1/{{id}}/{{id}}''" by (simp add: brace_def)
  have b: "bound_to_plain_strings ?env (findall ''{{host}}/v1/{{id}}/{{id}}'')"
    by (simp add: bound_to_plain_strings_def plain_def brace_def py_eq_def)
  have t': "tidy ''{{base}}/x''" by (simp add: brace_def)
  have b': "bound_to_plain_strings [] (findall ''{{base}}/x'')"
    by (simp add: bound_to_plain_strings_def brace_def)
  have "substitute_once ?env ''{{host}}/v1/{{id}}/{{id}}'' = ''api.example.com/v1/42/42''"
    by (simp add: brace_def py_eq_def)
  moreover have "substitute_once [] ''{{base}}/x'' = ''{{base}}/x''"
    by (simp add: brace_def)
  ultimately show ?thesis
    using resolve_url_simultaneous [OF t b] resolve_url_simultaneous [OF t' b'] t by simp
qed

lemma substitute_cong:
  "(\<And>n. n \<in> set ps \<Longrightarrow> dict_lookup env (JStr n) = dict_lookup env' (JStr n)) \<Longrightarrow>
   substitute env ps url = substitute env' ps url"
  by (induction ps arbitrary: url) (simp_all split: option.splits json.splits)

text \<open>
  Claim C1, as stated, fails: the value substituted for \<open>{{a}}\<close> holds the token \<open>{{b}}\<close>,
  \<open>b\<close> is a placeholder found elsewhere in the same raw URL, and the pass for \<open>b\<close> expands
  the token inside the substituted value.  A single pass would leave it.
\<close>

theorem resolve_url_expands_substituted_value:
  "resolve_url [(JStr ''a'', JStr ''{{b}}''), (JStr ''b'', JStr ''x'')] ''{{a}}/{{b}}'' = Inr ''x/x''
   \<and> substitute_once [(JStr ''a'', JStr ''{{b}}''), (JStr ''b'', JStr ''x'')] ''{{a}}/{{b}}''
       = ''{{b}}/x''"
  by (simp add: resolve_url_def brace_def py_eq_def)

text \<open>
  Claim C1, amended.  The placeholders are collected by one scan of the raw URL, before
  anything is substituted, and only they are ever replaced: the resolved URL depends on the
  variable map only through the bindings of the names found in the raw URL.  So a token
  inside a substituted value is never expanded when its name is not a placeholder of the
  raw URL.
\<close>

theorem resolve_url_depends_on_scanned_names:
  assumes "\<forall>n\<in>set (findall raw_url). dict_lookup env_map (JStr n) = dict_lookup env_map' (JStr n)"
  shows "resolve_url env_map raw_url = resolve_url env_map' raw_url"
  using assms unfolding resolve_url_def by (intro substitute_cong) simp

theorem resolve_url_depends_on_scanned_names_witness:
  "resolve_url [(JStr ''a'', JStr ''{{c}}''), (JStr ''c'', JStr ''x'')] ''{{a}}/v1''
     = resolve_url [(JStr ''a'', JStr ''{{c}}'')] ''{{a}}/v1''
   \<and> resolve_url [(JStr ''a'', JStr ''{{c}}'')] ''{{a}}/v1'' = Inr ''{{c}}/v1''"
proof -
  have "\<forall>n\<in>set (findall ''{{a}}/v1'').
          dict_lookup [(JStr ''a'', JStr ''{{c}}''), (JStr ''c'', JStr ''x'')] (JStr n)
            = dict_lookup [(JStr ''a'', JStr ''{{c}}'')] (JStr n)"
    by (simp add: brace_def py_eq_def)
  from resolve_url_depends_on_scanned_names [OF this]
  have "resolve_url [(JStr ''a'', JStr ''{{c}}''), (JStr ''c'', JStr ''x'')] ''{{a}}/v1''
     = resolve_url [(JStr ''a'', JStr ''{{c}}'')] ''{{a}}/v1''" .
  moreover have "resolve_url [(JStr ''a'', JStr ''{{c}}'')] ''{{a}}/v1'' = Inr ''{{c}}/v1''"
    by (simp add: resolve_url_def brace_def py_eq_def)
  ultimately show ?thesis by simp
qed

section \<open>Properties of the walk on the store\<close>

lemma extends_refl: "extends st st"
  by (simp add: extends_def)

lemma extends_trans:
  assumes "extends a b" "extends b c"
  shows "extends a c"
proof -
  from assms have l: "length a \<le> length b" "length b \<le> length c"
    and t: "take (length a) b = a" "take (length b) c = b"
    by (simp_all add: extends_def)
  have "take (length a) c = take (length a) (take (length b) c)"
    using l by (simp add: min_def)
  with l t show ?thesis by (simp add: extends_def)
qed

lemma extends_nth:
  assumes "extends st0 st" "a < length st0"
  shows "st ! a = st0 ! a"
proof -
  from assms(2) have "take (length st0) st ! a = st ! a" by simp
  with assms(1) show ?thesis by (simp add: extends_def)
qed

lemma extends_snoc: "extends st (st @ [x])"
  by (simp add: extends_def)

lemma extends_update: "extends st0 st \<Longrightarrow> length st0 \<le> a \<Longrightarrow> extends st0 (st[a := x])"
  by (simp add: extends_def)

lemma list_extend_Some:
  "list_extend st a r = Some st' \<Longrightarrow> \<exists>old xs. a < length st \<and> st ! a = OList old \<and> st' = st[a := OList (old @ xs)]"
  by (auto simp: list_extend_def view_def split: option.splits view.splits if_splits pyobj.splits)

lemma list_append_Some:
  "list_append st a x = Some st' \<Longrightarrow> \<exists>old. a < length st \<and> st ! a = OList old \<and> st' = st[a := OList (old @ [x])]"
  by (auto simp: list_append_def view_def split: option.splits view.splits if_splits pyobj.splits)

lemma request_part_frame:
  "request_part_st item env rr st = Some (res, st') \<Longrightarrow> extends st0 st \<Longrightarrow> length st0 \<le> rr \<Longrightarrow>
   extends st0 st' \<and> length st' = length st"
  by (auto simp: request_part_st_def extends_update split: option.splits sum.splits if_splits pyerr.splits
      dest!: list_append_Some)

lemma item_part_frame:
  assumes call: "\<And>sub s r s'. call sub s = Some (r, s') \<Longrightarrow> extends s s'"
    and run: "item_part_st call item rr st = Some (res, st')"
    and ext: "extends st0 st" and rr: "length st0 \<le> rr"
  shows "extends st0 st' \<and> length st \<le> length st'"
proof -
  from run obtain vi where vi: "view st item = Some vi"
    by (auto simp: item_part_st_def split: option.splits)
  show ?thesis
  proof (cases "\<exists>sub vs. v_in ''item'' vi = Inr True \<and> v_getitem vi ''item'' = Inr sub
      \<and> view st sub = Some vs \<and> is_VList vs")
    case False
    with run vi have "st' = st"
      by (auto simp: item_part_st_def split: option.splits sum.splits if_splits)
    with ext show ?thesis by simp
  next
    case True
    then obtain sub vs where
      "v_in ''item'' vi = Inr True" "v_getitem vi ''item'' = Inr sub"
      "view st sub = Some vs" "is_VList vs" by blast
    with run vi have run': "(case call sub st of
         None \<Rightarrow> None
       | Some (Inl e, st2) \<Rightarrow> Some (Inl e, st2)
       | Some (Inr found, st2) \<Rightarrow>
           (case list_extend st2 rr found of
              None \<Rightarrow> None
            | Some st3 \<Rightarrow> Some (Inr (), st3))) = Some (res, st')"
      by (simp add: item_part_st_def)
    then obtain r st2 where c: "call sub st = Some (r, st2)"
      by (auto split: option.splits)
    from call [OF c] have e2: "extends st st2" .
    from extends_trans [OF ext e2] have e02: "extends st0 st2" .
    from e2 have l2: "length st \<le> length st2" by (simp add: extends_def)
    show ?thesis
    proof (cases r)
      case (Inl e)
      with run' c e02 l2 show ?thesis by simp
    next
      case (Inr found)
      with run' c obtain st3 where x: "list_extend st2 rr found = Some st3" and "st' = st3"
        by (auto split: option.splits)
      with list_extend_Some [OF x] e02 rr l2 show ?thesis
        by (auto simp: extends_update)
    qed
  qed
qed

lemma walk_frame_aux:
  "(\<forall>item env st res st'. find_and_process_items_st n item env st = Some (res, st') \<longrightarrow> extends st st')
   \<and> (\<forall>item i env rr st res st' st0. process_list_st n item i env rr st = Some (res, st') \<longrightarrow>
         extends st0 st \<longrightarrow> length st0 \<le> rr \<longrightarrow> extends st0 st' \<and> length st \<le> length st')"
proof (induction n)
  case 0
  show ?case by (auto split: option.splits view.splits if_splits)
next
  case (Suc n)
  then have fp: "\<And>item env st res st'. find_and_process_items_st n item env st = Some (res, st') \<Longrightarrow> extends st st'"
    and lp: "\<And>item i env rr st res st' st0. process_list_st n item i env rr st = Some (res, st') \<Longrightarrow>
         extends st0 st \<Longrightarrow> length st0 \<le> rr \<Longrightarrow> extends st0 st' \<and> length st \<le> length st'"
    by blast+
  have 1: "extends st st'" if run: "find_and_process_items_st (Suc n) item env st = Some (res, st')"
    for item env st res st'
  proof -
    let ?st1 = "st @ [OList []]"
    have e1: "extends st ?st1" by (rule extends_snoc)
    from run obtain vi where vi: "view ?st1 item = Some vi"
      by (auto simp: Let_def split: option.splits)
    show ?thesis
    proof (cases "is_VList vi")
      case True
      with run vi have "process_list_st n item 0 env (length st) ?st1 = Some (res, st')"
        by (simp add: Let_def)
      from lp [OF this e1] show ?thesis by simp
    next
      case False
      with run vi obtain r st3 where
        ip: "item_part_st (\<lambda>sub s. find_and_process_items_st n sub env s) item (length st) ?st1 = Some (r, st3)"
        by (auto simp: Let_def split: option.splits)
      have e3: "extends st st3"
        using item_part_frame [OF _ ip e1] fp by blast
      show ?thesis
      proof (cases r)
        case (Inl e)
        with run vi False ip e3 show ?thesis by (simp add: Let_def)
      next
        case (Inr u)
        with run vi False ip have "request_part_st item env (length st) st3 = Some (res, st')"
          by (simp add: Let_def)
        from request_part_frame [OF this e3] show ?thesis by simp
      qed
    qed
  qed
  have 2: "extends st0 st' \<and> length st \<le> length st'"
    if run: "process_list_st (Suc n) item i env rr st = Some (res, st')"
      and ext: "extends st0 st" and rr: "length st0 \<le> rr"
    for item i env rr st res st' st0
  proof -
    from run obtain vs where vs: "view st item = Some (VList vs)"
      by (auto split: option.splits view.splits)
    show ?thesis
    proof (cases "i < length vs")
      case False
      with run vs ext show ?thesis by simp
    next
      case True
      with run vs obtain r st2 where
        call: "find_and_process_items_st n (vs ! i) env st = Some (r, st2)"
        by (auto split: option.splits)
      from fp [OF call] have e2: "extends st st2" .
      from extends_trans [OF ext e2] have e02: "extends st0 st2" .
      show ?thesis
      proof (cases r)
        case (Inl e)
        with run vs True call e02 e2 show ?thesis by (simp add: extends_def)
      next
        case (Inr found)
        with run vs True call obtain st3 where
          x: "list_extend st2 rr found = Some st3"
          and l: "process_list_st n item (Suc i) env rr st3 = Some (res, st')"
          by (auto split: option.splits)
        from list_extend_Some [OF x] e02 rr have "extends st0 st3" "length st3 = length st2"
          by (auto simp: extends_update)
        with lp [OF l this(1) rr] e2 show ?thesis by (simp add: extends_def)
      qed
    qed
  qed
  from 1 2 show ?case by blast
qed

lemma walk_frame:
  "find_and_process_items_st n item env st = Some (res, st') \<Longrightarrow> extends st st'"
  using walk_frame_aux by blast

lemma item_part_mono:
  assumes "\<And>sub s out. call sub s = Some out \<Longrightarrow> call' sub s = Some out"
    and "item_part_st call item rr st = Some out"
  shows "item_part_st call' item rr st = Some out"
proof -
  from assms(2) obtain vi where vi: "view st item = Some vi"
    by (auto simp: item_part_st_def split: option.splits)
  show ?thesis
  proof (cases "\<exists>sub vs. v_in ''item'' vi = Inr True \<and> v_getitem vi ''item'' = Inr sub
      \<and> view st sub = Some vs \<and> is_VList vs")
    case False
    with assms(2) vi show ?thesis
      by (auto simp: item_part_st_def split: option.splits sum.splits if_splits)
  next
    case True
    then obtain sub vs where s:
      "v_in ''item'' vi = Inr True" "v_getitem vi ''item'' = Inr sub"
      "view st sub = Some vs" "is_VList vs" by blast
    with assms(2) vi obtain r where "call sub st = Some r"
      by (auto simp: item_part_st_def split: option.splits)
    with assms(1) [OF this] assms(2) vi s show ?thesis
      by (simp add: item_part_st_def)
  qed
qed

lemma walk_st_list:
  "view (st @ [OList []]) item = Some vi \<Longrightarrow> is_VList vi \<Longrightarrow>
   find_and_process_items_st (Suc n) item env st
     = process_list_st n item 0 env (length st) (st @ [OList []])"
  by (simp add: Let_def)

lemma walk_st_node:
  "view (st @ [OList []]) item = Some vi \<Longrightarrow> \<not> is_VList vi \<Longrightarrow>
   find_and_process_items_st (Suc n) item env st
     = (case item_part_st (\<lambda>sub s. find_and_process_items_st n sub env s) item (length st)
               (st @ [OList []]) of
          None \<Rightarrow> None
        | Some (Inl e, st3) \<Rightarrow> Some (Inl e, st3)
        | Some (Inr u, st3) \<Rightarrow> request_part_st item env (length st) st3)"
  by (simp add: Let_def)

lemma loop_st_done:
  "view st item = Some (VList vs) \<Longrightarrow> \<not> i < length vs \<Longrightarrow>
   process_list_st n item i env rr st = Some (Inr (PRef rr), st)"
  by (cases n) simp_all

lemma loop_st_step:
  "view st item = Some (VList vs) \<Longrightarrow> i < length vs \<Longrightarrow>
   process_list_st (Suc n) item i env rr st
     = (case find_and_process_items_st n (vs ! i) env st of
          None \<Rightarrow> None
        | Some (Inl e, st2) \<Rightarrow> Some (Inl e, st2)
        | Some (Inr found, st2) \<Rightarrow>
            (case list_extend st2 rr found of
               None \<Rightarrow> None
             | Some st3 \<Rightarrow> process_list_st n item (Suc i) env rr st3))"
  by simp

lemma walk_st_Some:
  "find_and_process_items_st (Suc n) item env st = Some out \<Longrightarrow>
   \<exists>vi. view (st @ [OList []]) item = Some vi"
  by (auto simp: Let_def split: option.splits)

lemma loop_st_Some:
  "process_list_st n item i env rr st = Some out \<Longrightarrow> \<exists>vs. view st item = Some (VList vs)"
  by (cases n) (auto split: option.splits view.splits)

declare find_and_process_items_st.simps [simp del] process_list_st.simps [simp del]

lemma fuel_step:
  "(\<forall>item env st out. find_and_process_items_st n item env st = Some out \<longrightarrow>
       find_and_process_items_st (Suc n) item env st = Some out)
   \<and> (\<forall>item i env rr st out. process_list_st n item i env rr st = Some out \<longrightarrow>
       process_list_st (Suc n) item i env rr st = Some out)"
proof (induction n)
  case 0
  have "process_list_st (Suc 0) item i env rr st = Some out"
    if run: "process_list_st 0 item i env rr st = Some out" for item i env rr st out
  proof -
    from loop_st_Some [OF run] obtain vs where vs: "view st item = Some (VList vs)" by blast
    with run have "\<not> i < length vs" by (auto simp: process_list_st.simps)
    with vs run show ?thesis by (simp add: loop_st_done)
  qed
  then show ?case by (simp add: find_and_process_items_st.simps)
next
  case (Suc n)
  then have fp: "\<And>item env st out. find_and_process_items_st n item env st = Some out \<Longrightarrow>
       find_and_process_items_st (Suc n) item env st = Some out"
    and lp: "\<And>item i env rr st out. process_list_st n item i env rr st = Some out \<Longrightarrow>
       process_list_st (Suc n) item i env rr st = Some out"
    by blast+
  have 1: "find_and_process_items_st (Suc (Suc n)) item env st = Some out"
    if run: "find_and_process_items_st (Suc n) item env st = Some out" for item env st out
  proof -
    let ?st1 = "st @ [OList []]"
    from walk_st_Some [OF run] obtain vi where vi: "view ?st1 item = Some vi" by blast
    show ?thesis
    proof (cases "is_VList vi")
      case True
      with run vi have "process_list_st n item 0 env (length st) ?st1 = Some out"
        by (simp add: walk_st_list)
      from lp [OF this] True vi show ?thesis by (simp add: walk_st_list)
    next
      case False
      with run vi obtain r where
        ip: "item_part_st (\<lambda>sub s. find_and_process_items_st n sub env s) item (length st) ?st1 = Some r"
        by (auto simp: walk_st_node split: option.splits)
      have "item_part_st (\<lambda>sub s. find_and_process_items_st (Suc n) sub env s) item (length st) ?st1 = Some r"
        by (rule item_part_mono [OF _ ip]) (rule fp)
      with run vi False ip show ?thesis by (simp add: walk_st_node)
    qed
  qed
  have 2: "process_list_st (Suc (Suc n)) item i env rr st = Some out"
    if run: "process_list_st (Suc n) item i env rr st = Some out" for item i env rr st out
  proof -
    from loop_st_Some [OF run] obtain vs where vs: "view st item = Some (VList vs)" by blast
    show ?thesis
    proof (cases "i < length vs")
      case False
      with run vs show ?thesis by (simp add: loop_st_done)
    next
      case True
      with run vs obtain r st2 where
        call: "find_and_process_items_st n (vs ! i) env st = Some (r, st2)"
        by (auto simp: loop_st_step split: option.splits)
      note call' = fp [OF call]
      show ?thesis
      proof (cases r)
        case (Inl e)
        with run vs True call have "out = (Inl e, st2)" by (simp add: loop_st_step)
        with Inl vs True call' show ?thesis by (simp add: loop_st_step)
      next
        case (Inr found)
        with run vs True call obtain st3 where
          x: "list_extend st2 rr found = Some st3"
          and l: "process_list_st n item (Suc i) env rr st3 = Some out"
          by (auto simp: loop_st_step split: option.splits)
        from lp [OF l] x Inr vs True call' show ?thesis by (simp add: loop_st_step)
      qed
    qed
  qed
  from 1 2 show ?case by blast
qed

lemma fuel_mono:
  "find_and_process_items_st n item env st = Some out \<Longrightarrow> n \<le> m \<Longrightarrow>
   find_and_process_items_st m item env st = Some out"
  "process_list_st n item i env rr st = Some out \<Longrightarrow> n \<le> m \<Longrightarrow>
   process_list_st m item i env rr st = Some out"
  by (induction m) (auto simp: le_Suc_eq dest: fuel_step [THEN conjunct1, rule_format]
      fuel_step [THEN conjunct2, rule_format])

lemma rep_mono:
  "rep st0 v j \<Longrightarrow> extends st0 st \<Longrightarrow> rep st v j"
proof (induction rule: rep.induct)
  case (rep_list a vs js)
  from rep_list have "list_all2 (rep st) vs js"
    by (auto elim!: list_all2_mono)
  with rep_list show ?case
    by (auto intro!: rep.rep_list simp: extends_nth extends_def)
next
  case (rep_dict a kvs d)
  from rep_dict
  have "list_all2 (\<lambda>kv kj. fst kv = PStr (fst kj) \<and> rep st (snd kv) (snd kj)) kvs d"
    by (auto elim!: list_all2_mono)
  with rep_dict show ?case
    by (auto intro!: rep.rep_dict simp: extends_nth extends_def)
qed (auto intro: rep.intros)

lemma env_rep_mono: "env_rep st0 env e \<Longrightarrow> extends st0 st \<Longrightarrow> env_rep st env e"
  unfolding env_rep_def
  apply (elim exE conjE)
  subgoal for a kvs
    apply (rule exI [of _ a], rule exI [of _ kvs])
    apply (auto simp: extends_nth extends_def elim!: list_all2_mono intro: rep_mono [unfolded extends_def])
    done
  done

lemma rep_list_mem:
  "list_all2 (rep st) vs js \<Longrightarrow> (PStr k \<in> set vs) = (JStr k \<in> set js)"
  by (induction rule: list_all2_induct) (auto elim: rep_JStr rep_PStr)

lemma rep_key_lookup:
  "list_all2 (\<lambda>kv kj. fst kv = PStr (fst kj) \<and> rep st (snd kv) (snd kj)) kvs d \<Longrightarrow>
   (case map_of d k of
      None \<Rightarrow> key_lookup kvs k = None
    | Some j \<Rightarrow> (\<exists>v. key_lookup kvs k = Some v \<and> rep st v j))"
  by (induction rule: list_all2_induct) (auto split: option.splits)

lemma view_rep_in: "view_rep st w j \<Longrightarrow> v_in k w = py_in k j"
proof (cases w)
  case (VList vs)
  assume "view_rep st w j"
  with VList show ?thesis by (auto simp: rep_list_mem)
next
  case (VDict kvs)
  assume "view_rep st w j"
  with VDict obtain d where "j = JObj d"
    "list_all2 (\<lambda>kv kj. fst kv = PStr (fst kj) \<and> rep st (snd kv) (snd kj)) kvs d" by auto
  with VDict rep_key_lookup [OF this(2), of k] show ?thesis
    by (auto split: option.splits)
next
  case (VAtom v)
  assume "view_rep st w j"
  with VAtom have "rep st v j" "\<not> isinstance_list j" "\<forall>d. j \<noteq> JObj d" by simp_all
  from this VAtom show ?thesis by (cases rule: rep.cases) simp_all
qed

lemma view_rep_getitem: "view_rep st w j \<Longrightarrow> sum_rep st (v_getitem w k) (py_getitem j k)"
proof (cases w)
  case (VList vs)
  assume "view_rep st w j"
  with VList show ?thesis by (auto simp: sum_rep_def)
next
  case (VDict kvs)
  assume "view_rep st w j"
  with VDict obtain d where "j = JObj d"
    "list_all2 (\<lambda>kv kj. fst kv = PStr (fst kj) \<and> rep st (snd kv) (snd kj)) kvs d" by auto
  with VDict rep_key_lookup [OF this(2), of k] show ?thesis
    by (auto simp: sum_rep_def split: option.splits)
next
  case (VAtom v)
  assume "view_rep st w j"
  with VAtom have "rep st v j" "\<not> isinstance_list j" "\<forall>d. j \<noteq> JObj d" by simp_all
  from this VAtom show ?thesis by (cases rule: rep.cases) (simp_all add: sum_rep_def)
qed

lemma view_rep_get:
  "view_rep st w j \<Longrightarrow> rep st dv dj \<Longrightarrow> sum_rep st (v_get w k dv) (py_get j k dj)"
proof (cases w)
  case (VList vs)
  assume "view_rep st w j"
  with VList show ?thesis by (auto simp: sum_rep_def)
next
  case (VDict kvs)
  assume "view_rep st w j" and dflt: "rep st dv dj"
  with VDict obtain d where "j = JObj d"
    "list_all2 (\<lambda>kv kj. fst kv = PStr (fst kj) \<and> rep st (snd kv) (snd kj)) kvs d" by auto
  with VDict dflt rep_key_lookup [OF this(2), of k] show ?thesis
    by (auto simp: sum_rep_def split: option.splits)
next
  case (VAtom v)
  assume "view_rep st w j"
  with VAtom have "rep st v j" "\<not> isinstance_list j" "\<forall>d. j \<noteq> JObj d" by simp_all
  from this VAtom show ?thesis by (cases rule: rep.cases) (simp_all add: sum_rep_def)
qed

lemma view_rep_is_list: "view_rep st w j \<Longrightarrow> is_VList w = isinstance_list j"
  by (cases w) auto

lemma rep_view_extends:
  "rep st0 v j \<Longrightarrow> extends st0 st \<Longrightarrow> \<exists>w. view st v = Some w \<and> view_rep st0 w j"
  by (induction rule: rep.cases) (auto simp: view_def extends_nth extends_def intro: rep.intros)

lemma rep_key_is_str: "rep st k kj \<Longrightarrow> (k = PStr n) = py_eq kj (JStr n)"
  by (induction rule: rep.cases) (auto simp: py_eq_def)

lemma env_key_lookup:
  "list_all2 (\<lambda>kv kj. rep st (fst kv) (fst kj) \<and> rep st (snd kv) (snd kj)) kvs e \<Longrightarrow>
   (case dict_lookup e (JStr n) of
      None \<Rightarrow> key_lookup kvs n = None
    | Some j \<Rightarrow> (\<exists>v. key_lookup kvs n = Some v \<and> rep st v j))"
proof (induction rule: list_all2_induct)
  case Nil
  show ?case by simp
next
  case (Cons kv kvs kj e)
  obtain k v where kv: "kv = (k, v)" by (cases kv)
  obtain k' j where kj: "kj = (k', j)" by (cases kj)
  from Cons.hyps(1) kv kj have "rep st k k'" and "rep st v j" by simp_all
  from rep_key_is_str [OF this(1), of n] this(2)
  have "(k = PStr n) = py_eq k' (JStr n)" "rep st v j" by simp_all
  with Cons.IH kv kj show ?case by (auto split: option.splits)
qed

lemma substitute_refines:
  assumes "env_rep st0 env e" "extends st0 st"
  shows "substitute_st st env ps url = Some (substitute e ps url)"
proof -
  from assms obtain a kvs where env: "env = PRef a" "a < length st0" "st0 ! a = ODict kvs"
    and kvs: "list_all2 (\<lambda>kv kj. rep st0 (fst kv) (fst kj) \<and> rep st0 (snd kv) (snd kj)) kvs e"
    by (auto simp: env_rep_def)
  with assms(2) have view: "view st env = Some (VDict kvs)"
    by (simp add: view_def extends_nth extends_def)
  show ?thesis
  proof (induction ps arbitrary: url)
    case Nil
    show ?case by simp
  next
    case (Cons p ps)
    show ?case
    proof (cases "dict_lookup e (JStr p)")
      case None
      with env_key_lookup [OF kvs, of p] have "key_lookup kvs p = None" by simp
      with None view Cons.IH show ?thesis by simp
    next
      case (Some j)
      with env_key_lookup [OF kvs, of p] obtain v where
        v: "key_lookup kvs p = Some v" "rep st0 v j" by auto
      from v(2) show ?thesis
        by (cases rule: rep.cases) (use Some v(1) view Cons.IH in simp_all)
    qed
  qed
qed

lemma sum_rep_Inl: "sum_rep st r (Inl e) \<Longrightarrow> r = Inl e"
  by (simp add: sum_rep_def)

lemma sum_rep_Inr: "sum_rep st r (Inr x) \<Longrightarrow> \<exists>v. r = Inr v \<and> rep st v x"
  by (simp add: sum_rep_def)

lemma extract_refines:
  assumes item: "rep st0 item j" and env: "env_rep st0 env e" and ext: "extends st0 st"
  shows "\<exists>r. extract_request_st st item env = Some r \<and>
           (case extract_request j e of
              Inl er \<Rightarrow> r = Inl er
            | Inr p \<Rightarrow> (\<exists>v. r = Inr v \<and> pair_rep st0 v p))"
proof -
  from rep_view_extends [OF item ext] obtain w where
    w: "view st item = Some w" "view_rep st0 w j" by blast
  note g1 = view_rep_getitem [OF w(2), of "''request''"]
  show ?thesis
  proof (cases "py_getitem j ''request''")
    case (Inl er)
    with sum_rep_Inl g1 have "v_getitem w ''request'' = Inl er" by metis
    with Inl w show ?thesis by (simp add: extract_request_st_def extract_request_def)
  next
    case rq: (Inr request)
    with sum_rep_Inr g1 obtain request' where
      rq': "v_getitem w ''request'' = Inr request'" "rep st0 request' request" by metis
    from rep_view_extends [OF rq'(2) ext] obtain wr where
      wr: "view st request' = Some wr" "view_rep st0 wr request" by blast
    note g2 = view_rep_getitem [OF wr(2), of "''url''"]
    show ?thesis
    proof (cases "py_getitem request ''url''")
      case (Inl er)
      with sum_rep_Inl g2 have "v_getitem wr ''url'' = Inl er" by metis
      with Inl w rq rq' wr show ?thesis
        by (simp add: extract_request_st_def extract_request_def)
    next
      case u: (Inr url)
      with sum_rep_Inr g2 obtain url' where
        u': "v_getitem wr ''url'' = Inr url'" "rep st0 url' url" by metis
      from rep_view_extends [OF u'(2) ext] obtain wu where
        wu: "view st url' = Some wu" "view_rep st0 wu url" by blast
      note g3 = view_rep_getitem [OF wu(2), of "''raw''"]
      show ?thesis
      proof (cases "py_getitem url ''raw''")
        case (Inl er)
        with sum_rep_Inl g3 have "v_getitem wu ''raw'' = Inl er" by metis
        with Inl w rq rq' wr u u' wu show ?thesis
          by (simp add: extract_request_st_def extract_request_def)
      next
        case raw: (Inr raw_url)
        with sum_rep_Inr g3 obtain raw' where
          raw': "v_getitem wu ''raw'' = Inr raw'" "rep st0 raw' raw_url" by metis
        have "rep st0 (PStr ''N/A'') (JStr ''N/A'')" by (rule rep_str)
        note g4 = view_rep_get [OF wr(2) this, of "''method''"]
        show ?thesis
        proof (cases "py_get request ''method'' (JStr ''N/A'')")
          case (Inl er)
          with sum_rep_Inl g4 have "v_get wr ''method'' (PStr ''N/A'') = Inl er" by metis
          with Inl w rq rq' wr u u' wu raw raw' show ?thesis
            by (simp add: extract_request_st_def extract_request_def)
        next
          case m: (Inr meth)
          with sum_rep_Inr g4 obtain meth' where
            m': "v_get wr ''method'' (PStr ''N/A'') = Inr meth'" "rep st0 meth' meth" by metis
          note facts = w rq rq' wr u u' wu raw raw'(1) m m'(1)
          from raw'(2) show ?thesis
          proof (cases rule: rep.cases)
            case (rep_str s)
            with facts m'(2) substitute_refines [OF env ext, of "findall s" s] show ?thesis
              by (auto simp: extract_request_st_def extract_request_def resolve_url_def pair_rep_def
                  split: sum.splits)
          qed (use facts in \<open>simp_all add: extract_request_st_def extract_request_def\<close>)
        qed
      qed
    qed
  qed
qed

lemma request_part_refines:
  assumes item: "rep st0 item j" and env: "env_rep st0 env e" and ext: "extends st0 st"
    and rr: "rr < length st" and acc: "st ! rr = OList acc"
    and before: "list_all2 (pair_rep st0) acc before"
  shows "\<exists>out. request_part_st item env rr st = Some out \<and>
           result_rep st0 rr before out
             (case py_in ''request'' j of
                Inl er \<Rightarrow> Inl er
              | Inr hr \<Rightarrow> Inr (if hr then own_requests e j else []))"
proof -
  from rep_view_extends [OF item ext] obtain w where
    w: "view st item = Some w" "view_rep st0 w j" by blast
  from view_rep_in [OF w(2)] have vin: "v_in ''request'' w = py_in ''request'' j" .
  from rr acc have same: "st[rr := OList acc] = st" by (metis list_update_id)
  show ?thesis
  proof (cases "py_in ''request'' j")
    case (Inl er)
    with w vin show ?thesis by (simp add: request_part_st_def result_rep_def)
  next
    case (Inr hr)
    show ?thesis
    proof (cases hr)
      case False
      with Inr w vin rr acc before show ?thesis
        by (simp add: request_part_st_def result_rep_def)
    next
      case True
      from extract_refines [OF item env ext] obtain r where
        r: "extract_request_st st item env = Some r"
        and rel: "case extract_request j e of Inl er \<Rightarrow> r = Inl er
                  | Inr p \<Rightarrow> (\<exists>v. r = Inr v \<and> pair_rep st0 v p)" by blast
      show ?thesis
      proof (cases "extract_request j e")
        case (Inl er)
        with rel have "r = Inl er" by simp
        moreover from extract_request_error [OF Inl] have "er = KeyError \<or> er = TypeError" .
        moreover from Inl have "own_requests e j = []" by (simp add: own_requests_def)
        ultimately show ?thesis
          using Inr True w vin r rr acc before
          by (auto simp: request_part_st_def result_rep_def)
      next
        case p: (Inr p)
        with rel obtain v where v: "r = Inr v" "pair_rep st0 v p" by auto
        from rr acc have "list_append st rr v = Some (st[rr := OList (acc @ [v])])"
          by (simp add: list_append_def view_def)
        moreover from p have "own_requests e j = [p]" by (simp add: own_requests_def)
        moreover from before v(2) have "list_all2 (pair_rep st0) (acc @ [v]) (before @ [p])"
          by (simp add: list_all2_appendI)
        ultimately show ?thesis
          using Inr True w vin r v(1) rr
          by (simp add: request_part_st_def result_rep_def)
      qed
    qed
  qed
qed

lemma refines_nil: "loop_refines [] e"
  unfolding loop_refines_def
proof (intro allI impI)
  fix st0 st :: store and a i rr :: nat and vs acc :: "pyval list" and env :: pyval
    and before :: "(json \<times> string) list"
  assume a: "a < length st0" "st0 ! a = OList vs" "i \<le> length vs"
    "list_all2 (rep st0) (drop i vs) []" "extends st0 st"
    and rr: "rr < length st" "st ! rr = OList acc" "list_all2 (pair_rep st0) acc before"
  from a have view: "view st (PRef a) = Some (VList vs)"
    by (simp add: view_def extends_nth extends_def)
  from a have i: "\<not> i < length vs" by simp
  from loop_st_done [OF view i] rr
  have "process_list_st 0 (PRef a) i env rr st = Some (Inr (PRef rr), st)
      \<and> result_rep st0 rr before (Inr (PRef rr), st) (process_list [] e)"
    by (simp add: result_rep_def)
  then show "\<exists>n out. process_list_st n (PRef a) i env rr st = Some out
            \<and> result_rep st0 rr before out (process_list [] e)"
    by blast
qed

lemma refines_list:
  assumes "loop_refines items e"
  shows "walk_refines (JArr items) e"
  unfolding walk_refines_def
proof (intro allI impI)
  fix st0 st :: store and item env :: pyval
  assume item: "rep st0 item (JArr items)" and env: "env_rep st0 env e" and ext: "extends st0 st"
  let ?st1 = "st @ [OList []]"
  from item obtain a vs where a: "item = PRef a" "a < length st0" "st0 ! a = OList vs"
    "list_all2 (rep st0) vs items"
    by (auto elim: rep_JArr)
  from extends_trans [OF ext extends_snoc] have ext1: "extends st0 ?st1" .
  with a have view: "view ?st1 item = Some (VList vs)"
    using extends_nth [OF ext1 a(2)] by (simp add: view_def extends_def)
  from ext have l: "length st0 \<le> length st" by (simp add: extends_def)
  from assms [unfolded loop_refines_def, rule_format, OF a(2,3) _ _ env ext1 l, of 0 "[]" "[]"] a(4)
  obtain n out where n: "process_list_st n (PRef a) 0 env (length st) ?st1 = Some out"
    "result_rep st0 (length st) [] out (process_list items e)"
    by auto
  with walk_st_list [OF view, of n env] a(1)
  have "find_and_process_items_st (Suc n) item env st = Some out
      \<and> result_rep st0 (length st) [] out (find_and_process_items (JArr items) e)"
    by simp
  then show "\<exists>n out. find_and_process_items_st n item env st = Some out
        \<and> result_rep st0 (length st) [] out (find_and_process_items (JArr items) e)"
    by blast
qed

lemma refines_cons:
  assumes head: "walk_refines item e"
    and tail: "\<And>found. find_and_process_items item e = Inr found \<Longrightarrow> loop_refines items e"
  shows "loop_refines (item # items) e"
  unfolding loop_refines_def
proof (intro allI impI)
  fix st0 st :: store and a i rr :: nat and vs acc :: "pyval list" and env :: pyval
    and before :: "(json \<times> string) list"
  assume a: "a < length st0" "st0 ! a = OList vs" "i \<le> length vs"
    and elems: "list_all2 (rep st0) (drop i vs) (item # items)"
    and env: "env_rep st0 env e" and ext: "extends st0 st"
    and rr: "length st0 \<le> rr" "rr < length st" "st ! rr = OList acc"
    and before: "list_all2 (pair_rep st0) acc before"
  from a ext have view: "\<And>s. extends st0 s \<Longrightarrow> view s (PRef a) = Some (VList vs)"
    by (simp add: view_def extends_nth extends_def)
  from elems have i: "i < length vs"
    by (cases "i < length vs") simp_all
  then have "drop i vs = vs ! i # drop (Suc i) vs" by (rule Cons_nth_drop_Suc [symmetric])
  with elems have v: "rep st0 (vs ! i) item" and rest: "list_all2 (rep st0) (drop (Suc i) vs) items"
    by simp_all
  from head [unfolded walk_refines_def, rule_format, OF v env ext]
  obtain n1 r st2 where call: "find_and_process_items_st n1 (vs ! i) env st = Some (r, st2)"
    and res: "result_rep st0 (length st) [] (r, st2) (find_and_process_items item e)" by force
  show "\<exists>n out. process_list_st n (PRef a) i env rr st = Some out
            \<and> result_rep st0 rr before out (process_list (item # items) e)"
  proof (cases "find_and_process_items item e")
    case (Inl er)
    with res have "r = Inl er" by (simp add: result_rep_def)
    with call loop_st_step [OF view [OF ext] i, of n1 env rr] Inl
    have "process_list_st (Suc n1) (PRef a) i env rr st = Some (Inl er, st2)
        \<and> result_rep st0 rr before (Inl er, st2) (process_list (item # items) e)"
      by (simp add: result_rep_def)
    then show ?thesis by blast
  next
    case (Inr found)
    with res obtain vs2 where r: "r = Inr (PRef (length st))"
      and vs2: "length st < length st2" "st2 ! length st = OList vs2" "list_all2 (pair_rep st0) vs2 found"
      by (auto simp: result_rep_def)
    from walk_frame [OF call] have e2: "extends st st2" .
    let ?st3 = "st2[rr := OList (acc @ vs2)]"
    from extends_nth [OF e2 rr(2)] rr(3) have acc2: "st2 ! rr = OList acc" by simp
    from e2 rr(2) have rr2: "rr < length st2" by (simp add: extends_def)
    from vs2 rr2 acc2 have x: "list_extend st2 rr (PRef (length st)) = Some ?st3"
      by (simp add: list_extend_def view_def)
    have e03: "extends st0 ?st3"
      by (rule extends_update [OF extends_trans [OF ext e2] rr(1)])
    from vs2 before have b3: "list_all2 (pair_rep st0) (acc @ vs2) (before @ found)"
      by (simp add: list_all2_appendI)
    from tail [OF Inr, unfolded loop_refines_def, rule_format, OF a(1,2) _ rest env e03 rr(1) _ _ b3]
      i rr2
    obtain n2 out where loop: "process_list_st n2 (PRef a) (Suc i) env rr ?st3 = Some out"
      and out: "result_rep st0 rr (before @ found) out (process_list items e)"
      by auto
    let ?m = "max n1 n2"
    from fuel_mono(1) [OF call, of ?m] r
    have call': "find_and_process_items_st ?m (vs ! i) env st = Some (Inr (PRef (length st)), st2)"
      by simp
    from fuel_mono(2) [OF loop, of ?m]
    have loop': "process_list_st ?m (PRef a) (Suc i) env rr ?st3 = Some out" by simp
    from loop_st_step [OF view [OF ext] i, of ?m env rr] call' x loop'
    have "process_list_st (Suc ?m) (PRef a) i env rr st = Some out" by simp
    moreover from out Inr have "result_rep st0 rr before out (process_list (item # items) e)"
      by (auto simp: result_rep_def split: sum.splits)
    ultimately show ?thesis by blast
  qed
qed

lemma walk_node_eq:
  "\<not> isinstance_list j \<Longrightarrow>
   find_and_process_items j e =
     (case py_in ''item'' j of
        Inl er \<Rightarrow> Inl er
      | Inr has_item \<Rightarrow>
          (case (if has_item then
                   (case py_getitem j ''item'' of
                      Inl er \<Rightarrow> Inl er
                    | Inr sub \<Rightarrow>
                        if isinstance_list sub then find_and_process_items sub e else Inr [])
                 else Inr []) of
             Inl er \<Rightarrow> Inl er
           | Inr nested \<Rightarrow>
               (case py_in ''request'' j of
                  Inl er \<Rightarrow> Inl er
                | Inr hr \<Rightarrow> Inr (nested @ (if hr then own_requests e j else [])))))"
  by (cases j) (simp_all add: try_request_own split: sum.splits)

lemma refines_node:
  assumes nl: "\<not> isinstance_list j"
    and ih: "\<And>sub. py_in ''item'' j = Inr True \<Longrightarrow> py_getitem j ''item'' = Inr sub \<Longrightarrow>
               isinstance_list sub \<Longrightarrow> walk_refines sub e"
  shows "walk_refines j e"
  unfolding walk_refines_def
proof (intro allI impI)
  fix st0 st :: store and item env :: pyval
  assume item: "rep st0 item j" and env: "env_rep st0 env e" and ext: "extends st0 st"
  let ?st1 = "st @ [OList []]"
  let ?rr = "length st"
  let ?goal = "\<exists>n out. find_and_process_items_st n item env st = Some out
        \<and> result_rep st0 (length st) [] out (find_and_process_items j e)"
  let ?own = "case py_in ''request'' j of
                Inl er \<Rightarrow> Inl er
              | Inr hr \<Rightarrow> Inr (if hr then own_requests e j else [])"
  from extends_trans [OF ext extends_snoc] have ext1: "extends st0 ?st1" .
  from ext have l0: "length st0 \<le> ?rr" by (simp add: extends_def)
  from rep_view_extends [OF item ext1] obtain w where
    w: "view ?st1 item = Some w" "view_rep st0 w j" by blast
  from view_rep_is_list [OF w(2)] nl have nw: "\<not> is_VList w" by simp
  note unfold = walk_st_node [OF w(1) nw]
  from view_rep_in [OF w(2)] have vin: "v_in ''item'' w = py_in ''item'' j" .
  have tail: "\<exists>out. request_part_st item env ?rr st3 = Some out
      \<and> result_rep st0 ?rr [] out
          (case py_in ''request'' j of
             Inl er \<Rightarrow> Inl er
           | Inr hr \<Rightarrow> Inr (nested @ (if hr then own_requests e j else [])))"
    if "extends st0 st3" "?rr < length st3" "st3 ! ?rr = OList acc"
      "list_all2 (pair_rep st0) acc nested" for st3 acc nested
  proof -
    from request_part_refines [OF item env that] obtain out where
      "request_part_st item env ?rr st3 = Some out" "result_rep st0 ?rr nested out ?own" by blast
    then show ?thesis
      by (cases "py_in ''request'' j") (auto simp: result_rep_def)
  qed
  have skip: ?goal
    if ip: "\<And>call. item_part_st call item ?rr ?st1 = Some (Inr (), ?st1)"
      and pure: "find_and_process_items j e =
          (case py_in ''request'' j of
             Inl er \<Rightarrow> Inl er
           | Inr hr \<Rightarrow> Inr ([] @ (if hr then own_requests e j else [])))"
  proof -
    from tail [OF ext1, of "[]" "[]"] obtain out where
      "request_part_st item env ?rr ?st1 = Some out"
      "result_rep st0 ?rr [] out (find_and_process_items j e)"
      by (auto simp: pure)
    with unfold [of 0 env] ip have "find_and_process_items_st (Suc 0) item env st = Some out"
      by simp
    with \<open>result_rep st0 ?rr [] out (find_and_process_items j e)\<close> show ?thesis by blast
  qed
  have raise: ?goal
    if ip: "\<And>call. item_part_st call item ?rr ?st1 = Some (Inl er, ?st1)"
      and pure: "find_and_process_items j e = Inl er" for er
  proof -
    from unfold [of 0 env] ip have "find_and_process_items_st (Suc 0) item env st = Some (Inl er, ?st1)"
      by simp
    moreover have "result_rep st0 ?rr [] (Inl er, ?st1) (find_and_process_items j e)"
      by (simp add: pure result_rep_def)
    ultimately show ?thesis by blast
  qed
  show ?goal
  proof (cases "py_in ''item'' j")
    case (Inl er)
    with vin w show ?thesis
      by (intro raise [of er]) (simp_all add: item_part_st_def walk_node_eq [OF nl])
  next
    case has: (Inr has_item)
    show ?thesis
    proof (cases has_item)
      case False
      with has vin w show ?thesis
        by (intro skip) (simp_all add: item_part_st_def walk_node_eq [OF nl])
    next
      case True
      note g = view_rep_getitem [OF w(2), of "''item''"]
      show ?thesis
      proof (cases "py_getitem j ''item''")
        case (Inl er)
        with sum_rep_Inl g have "v_getitem w ''item'' = Inl er" by metis
        with Inl has True vin w show ?thesis
          by (intro raise [of er]) (simp_all add: item_part_st_def walk_node_eq [OF nl])
      next
        case sub: (Inr subj)
        with sum_rep_Inr g obtain sub where
          sub': "v_getitem w ''item'' = Inr sub" "rep st0 sub subj" by metis
        from rep_view_extends [OF sub'(2) ext1] obtain ws where
          ws: "view ?st1 sub = Some ws" "view_rep st0 ws subj" by blast
        note isl = view_rep_is_list [OF ws(2)]
        show ?thesis
        proof (cases "isinstance_list subj")
          case False
          with isl sub sub' ws has True vin w show ?thesis
            by (intro skip) (simp_all add: item_part_st_def walk_node_eq [OF nl])
        next
          case list: True
          from has True have "py_in ''item'' j = Inr True" by simp
          from ih [OF this sub list, unfolded walk_refines_def, rule_format, OF sub'(2) env ext1]
          obtain n r st2 where call: "find_and_process_items_st n sub env ?st1 = Some (r, st2)"
            and res: "result_rep st0 (length ?st1) [] (r, st2) (find_and_process_items subj e)"
            by force
          have ip: "item_part_st (\<lambda>sub s. find_and_process_items_st n sub env s) item ?rr ?st1
              = (case r of
                   Inl e \<Rightarrow> Some (Inl e, st2)
                 | Inr found \<Rightarrow>
                     (case list_extend st2 ?rr found of
                        None \<Rightarrow> None
                      | Some st3 \<Rightarrow> Some (Inr (), st3)))"
            using w vin has True sub' ws isl list call
            by (simp add: item_part_st_def split: sum.splits)
          show ?thesis
          proof (cases "find_and_process_items subj e")
            case (Inl er)
            with res have "r = Inl er" by (simp add: result_rep_def)
            with unfold [of n env] ip
            have "find_and_process_items_st (Suc n) item env st = Some (Inl er, st2)" by simp
            moreover from Inl has True sub list
            have "result_rep st0 ?rr [] (Inl er, st2) (find_and_process_items j e)"
              by (simp add: walk_node_eq [OF nl] result_rep_def)
            ultimately show ?thesis by blast
          next
            case (Inr nested)
            with res obtain vs2 where r: "r = Inr (PRef (length ?st1))"
              and vs2: "length ?st1 < length st2" "st2 ! length ?st1 = OList vs2"
                "list_all2 (pair_rep st0) vs2 nested"
              by (auto simp: result_rep_def)
            from walk_frame [OF call] have e12: "extends ?st1 st2" .
            let ?st3 = "st2[?rr := OList vs2]"
            have "?st1 ! ?rr = OList []" by simp
            with extends_nth [OF e12, of ?rr] have rr2: "st2 ! ?rr = OList []" by simp
            from vs2(1) have lt: "?rr < length st2" by simp
            from vs2 rr2 lt have x: "list_extend st2 ?rr (PRef (length ?st1)) = Some ?st3"
              by (simp add: list_extend_def view_def)
            have e03: "extends st0 ?st3"
              by (rule extends_update [OF extends_trans [OF ext1 e12] l0])
            from tail [OF e03, of vs2 nested] lt vs2(3) obtain out where
              out: "request_part_st item env ?rr ?st3 = Some out"
                "result_rep st0 ?rr [] out
                   (case py_in ''request'' j of
                      Inl er \<Rightarrow> Inl er
                    | Inr hr \<Rightarrow> Inr (nested @ (if hr then own_requests e j else [])))"
              by auto
            from unfold [of n env] ip r x out(1)
            have "find_and_process_items_st (Suc n) item env st = Some out" by simp
            moreover from out(2) Inr has True sub list
            have "result_rep st0 ?rr [] out (find_and_process_items j e)"
              by (simp add: walk_node_eq [OF nl])
            ultimately show ?thesis by blast
          qed
        qed
      qed
    qed
  qed
qed

lemma walk_refines_all: "walk_refines j e" and "loop_refines js e"
proof (induction j e and js e rule: find_and_process_items_process_list.induct)
qed (auto intro: refines_list refines_node refines_nil refines_cons)

text \<open>Every tree and every variable map are held by some store.\<close>

lemma rep_list_mono:
  "list_all2 (rep st0) vs js \<Longrightarrow> extends st0 st \<Longrightarrow> list_all2 (rep st) vs js"
  by (erule list_all2_mono) (rule rep_mono)

lemma rep_items_mono:
  "list_all2 (\<lambda>kv kj. fst kv = PStr (fst kj) \<and> rep st0 (snd kv) (snd kj)) kvs d \<Longrightarrow>
   extends st0 st \<Longrightarrow>
   list_all2 (\<lambda>kv kj. fst kv = PStr (fst kj) \<and> rep st (snd kv) (snd kj)) kvs d"
  by (erule list_all2_mono) (auto intro: rep_mono)

lemma rep_alloc_list:
  assumes "list_all2 (rep st) vs js"
  shows "rep (st @ [OList vs]) (PRef (length st)) (JArr js)"
  by (rule rep_list [where vs = vs]) (simp_all add: rep_list_mono [OF assms extends_snoc])

lemma rep_alloc_dict:
  assumes "list_all2 (\<lambda>kv kj. fst kv = PStr (fst kj) \<and> rep st (snd kv) (snd kj)) kvs d"
  shows "rep (st @ [ODict kvs]) (PRef (length st)) (JObj d)"
  by (rule rep_dict [where kvs = kvs]) (simp_all add: rep_items_mono [OF assms extends_snoc])

lemma elements_exist:
  assumes "\<And>x st. x \<in> set js \<Longrightarrow> \<exists>st' v. extends st st' \<and> rep st' v x"
  shows "\<exists>st' vs. extends st st' \<and> list_all2 (rep st') vs js"
  using assms
proof (induction js arbitrary: st)
  case Nil
  have "extends st st \<and> list_all2 (rep st) [] []" by (simp add: extends_refl)
  then show ?case by blast
next
  case (Cons x xs)
  from Cons.prems [of x st] obtain st1 v where 1: "extends st st1" "rep st1 v x" by auto
  have "\<And>y st. y \<in> set xs \<Longrightarrow> \<exists>st' v. extends st st' \<and> rep st' v y"
    by (rule Cons.prems) simp
  from Cons.IH [OF this, of st1] obtain st2 vs where
    2: "extends st1 st2" "list_all2 (rep st2) vs xs" by blast
  from 1 2 have "extends st st2 \<and> list_all2 (rep st2) (v # vs) (x # xs)"
    by (auto intro: extends_trans rep_mono)
  then show ?case by blast
qed

lemma items_exist:
  assumes "\<And>x st. x \<in> set d \<Longrightarrow> \<exists>st' v. extends st st' \<and> rep st' v (snd x)"
  shows "\<exists>st' kvs. extends st st'
      \<and> list_all2 (\<lambda>kv kj. fst kv = PStr (fst kj) \<and> rep st' (snd kv) (snd kj)) kvs d"
  using assms
proof (induction d arbitrary: st)
  case Nil
  have "extends st st \<and> list_all2 (\<lambda>kv kj. fst kv = PStr (fst kj) \<and> rep st (snd kv) (snd kj)) [] []"
    by (simp add: extends_refl)
  then show ?case by blast
next
  case (Cons x xs)
  obtain k j where x: "x = (k, j)" by (cases x)
  from Cons.prems [of x st] x obtain st1 v where 1: "extends st st1" "rep st1 v j" by auto
  have "\<And>y st. y \<in> set xs \<Longrightarrow> \<exists>st' v. extends st st' \<and> rep st' v (snd y)"
    by (rule Cons.prems) simp
  from Cons.IH [OF this, of st1] obtain st2 kvs where
    2: "extends st1 st2"
      "list_all2 (\<lambda>kv kj. fst kv = PStr (fst kj) \<and> rep st2 (snd kv) (snd kj)) kvs xs" by blast
  from 1 2 x have "extends st st2
      \<and> list_all2 (\<lambda>kv kj. fst kv = PStr (fst kj) \<and> rep st2 (snd kv) (snd kj))
           ((PStr k, v) # kvs) (x # xs)"
    by (auto intro: extends_trans rep_mono)
  then show ?case by blast
qed

lemma rep_exists: "\<exists>st' v. extends st st' \<and> rep st' v j"
proof (induction j arbitrary: st)
  case (JArr js)
  from elements_exist [of js st] JArr obtain st' vs where
    "extends st st'" "list_all2 (rep st') vs js" by blast
  then have "extends st (st' @ [OList vs]) \<and> rep (st' @ [OList vs]) (PRef (length st')) (JArr js)"
    by (auto intro: extends_trans extends_snoc rep_alloc_list)
  then show ?case by blast
next
  case (JObj d)
  have "\<exists>st' v. extends st st' \<and> rep st' v (snd x)" if "x \<in> set d" for x st
    using JObj [OF that, of "snd x" st] by (cases x) simp
  from items_exist [of d st, OF this] obtain st' kvs where "extends st st'"
    "list_all2 (\<lambda>kv kj. fst kv = PStr (fst kj) \<and> rep st' (snd kv) (snd kj)) kvs d" by blast
  then have "extends st (st' @ [ODict kvs]) \<and> rep (st' @ [ODict kvs]) (PRef (length st')) (JObj d)"
    by (auto intro: extends_trans extends_snoc rep_alloc_dict)
  then show ?case by blast
qed (blast intro: extends_refl rep.intros)+

lemma env_entries_exist:
  "\<exists>st' kvs. extends st st'
     \<and> list_all2 (\<lambda>kv kj. rep st' (fst kv) (fst kj) \<and> rep st' (snd kv) (snd kj)) kvs e"
proof (induction e arbitrary: st)
  case Nil
  have "extends st st \<and> list_all2 (\<lambda>kv kj. rep st (fst kv) (fst kj) \<and> rep st (snd kv) (snd kj)) [] []"
    by (simp add: extends_refl)
  then show ?case by blast
next
  case (Cons x xs)
  obtain k j where x: "x = (k, j)" by (cases x)
  from rep_exists [of st k] obtain st1 kv where 1: "extends st st1" "rep st1 kv k" by blast
  from rep_exists [of st1 j] obtain st2 v where 2: "extends st1 st2" "rep st2 v j" by blast
  from Cons.IH [of st2] obtain st3 kvs where
    3: "extends st2 st3"
      "list_all2 (\<lambda>kv kj. rep st3 (fst kv) (fst kj) \<and> rep st3 (snd kv) (snd kj)) kvs xs" by blast
  from 1 2 3 x have "extends st st3
      \<and> list_all2 (\<lambda>kv kj. rep st3 (fst kv) (fst kj) \<and> rep st3 (snd kv) (snd kj))
           ((kv, v) # kvs) (x # xs)"
    by (auto intro: extends_trans rep_mono)
  then show ?case by blast
qed

lemma store_exists: "\<exists>st item env_map. rep st item j \<and> env_rep st env_map e"
proof -
  from rep_exists [of "[]" j] obtain st1 item where 1: "rep st1 item j" by blast
  from env_entries_exist [of st1 e] obtain st2 kvs where
    2: "extends st1 st2"
      "list_all2 (\<lambda>kv kj. rep st2 (fst kv) (fst kj) \<and> rep st2 (snd kv) (snd kj)) kvs e" by blast
  let ?st = "st2 @ [ODict kvs]"
  have e: "extends st2 ?st" by (rule extends_snoc)
  from 2(2) have "list_all2 (\<lambda>kv kj. rep ?st (fst kv) (fst kj) \<and> rep ?st (snd kv) (snd kj)) kvs e"
    by (rule list_all2_mono) (auto intro: rep_mono [OF _ e])
  then have "env_rep ?st (PRef (length st2)) e"
    by (auto simp: env_rep_def)
  moreover from 1 2(1) e have "rep ?st item j" by (blast intro: rep_mono extends_trans)
  ultimately show ?thesis by blast
qed

text \<open>
  Claim C9.  Take a store in which \<open>item\<close> represents a collection tree and \<open>env_map\<close> a
  variable map (there is such a store for every tree and map, by \<open>store_exists\<close>).  With
  enough fuel the run returns.  The store it leaves extends the store
  it started from: every object that was there is unchanged, so the tree and the map are
  still represented; the run has written only to lists it allocated itself.  Its result is
  the value of \<open>find_and_process_items\<close> on the tree and the map.  A second run with the same
  arguments, on the store the first run left, gives a result that represents the same
  sequence.
\<close>

theorem find_and_process_items_st_pure:
  assumes "rep st item j" and "env_rep st env_map e"
  shows "\<exists>n out out2.
           find_and_process_items_st n item env_map st = Some out
         \<and> extends st (snd out)
         \<and> rep (snd out) item j \<and> env_rep (snd out) env_map e
         \<and> result_rep st (length st) [] out (find_and_process_items j e)
         \<and> find_and_process_items_st n item env_map (snd out) = Some out2
         \<and> extends (snd out) (snd out2)
         \<and> result_rep st (length (snd out)) [] out2 (find_and_process_items j e)"
proof -
  from walk_refines_all(1) [of j e, unfolded walk_refines_def, rule_format, OF assms extends_refl]
  obtain n1 out where run1: "find_and_process_items_st n1 item env_map st = Some out"
    and res1: "result_rep st (length st) [] out (find_and_process_items j e)" by blast
  obtain r st' where out: "out = (r, st')" by (cases out)
  from walk_frame [OF run1 [unfolded out]] have e1: "extends st st'" .
  from walk_refines_all(1) [of j e, unfolded walk_refines_def, rule_format, OF assms e1]
  obtain n2 out2 where run2: "find_and_process_items_st n2 item env_map st' = Some out2"
    and res2: "result_rep st (length st') [] out2 (find_and_process_items j e)" by blast
  obtain r2 st'' where out2: "out2 = (r2, st'')" by (cases out2)
  let ?n = "max n1 n2"
  from fuel_mono(1) [OF run1, of ?n] have a: "find_and_process_items_st ?n item env_map st = Some out"
    by simp
  from fuel_mono(1) [OF run2, of ?n] have b: "find_and_process_items_st ?n item env_map st' = Some out2"
    by simp
  from walk_frame [OF run2 [unfolded out2]] have e2: "extends st' st''" .
  from a b e1 e2 res1 res2 rep_mono [OF assms(1) e1] env_rep_mono [OF assms(2) e1] out out2
  show ?thesis
    by (intro exI [of _ ?n] exI [of _ out] exI [of _ out2]) simp
qed

theorem find_and_process_items_st_pure_witness:
  "rep [OList [PRef 1],
        ODict [(PStr ''request'', PRef 2)],
        ODict [(PStr ''method'', PStr ''GET''), (PStr ''url'', PRef 3)],
        ODict [(PStr ''raw'', PStr ''https://api/{{token}}/users'')],
        ODict [(PStr ''token'', PStr ''abc123'')]]
       (PRef 0)
       (JArr [JObj [(''request'', JObj [(''method'', JStr ''GET''),
                                         (''url'', JObj [(''raw'', JStr ''https://api/{{token}}/users'')])])]])
   \<and> env_rep [OList [PRef 1],
        ODict [(PStr ''request'', PRef 2)],
        ODict [(PStr ''method'', PStr ''GET''), (PStr ''url'', PRef 3)],
        ODict [(PStr ''raw'', PStr ''https://api/{{token}}/users'')],
        ODict [(PStr ''token'', PStr ''abc123'')]]
       (PRef 4) [(JStr ''token'', JStr ''abc123'')]
   \<and> find_and_process_items_st 3 (PRef 0) (PRef 4)
       [OList [PRef 1],
        ODict [(PStr ''request'', PRef 2)],
        ODict [(PStr ''method'', PStr ''GET''), (PStr ''url'', PRef 3)],
        ODict [(PStr ''raw'', PStr ''https://api/{{token}}/users'')],
        ODict [(PStr ''token'', PStr ''abc123'')]]
     = Some (Inr (PRef 5),
       [OList [PRef 1],
        ODict [(PStr ''request'', PRef 2)],
        ODict [(PStr ''method'', PStr ''GET''), (PStr ''url'', PRef 3)],
        ODict [(PStr ''raw'', PStr ''https://api/{{token}}/users'')],
        ODict [(PStr ''token'', PStr ''abc123'')],
        OList [PTuple (PStr ''GET'') (PStr ''https://api/abc123/users'')],
        OList [PTuple (PStr ''GET'') (PStr ''https://api/abc123/users'')]])
   \<and> (\<exists>n out out2.
         find_and_process_items_st n (PRef 0) (PRef 4)
           [OList [PRef 1],
            ODict [(PStr ''request'', PRef 2)],
            ODict [(PStr ''method'', PStr ''GET''), (PStr ''url'', PRef 3)],
            ODict [(PStr ''raw'', PStr ''https://api/{{token}}/users'')],
            ODict [(PStr ''token'', PStr ''abc123'')]] = Some out
       \<and> find_and_process_items_st n (PRef 0) (PRef 4) (snd out) = Some out2
       \<and> result_rep
            [OList [PRef 1],
             ODict [(PStr ''request'', PRef 2)],
             ODict [(PStr ''method'', PStr ''GET''), (PStr ''url'', PRef 3)],
             ODict [(PStr ''raw'', PStr ''https://api/{{token}}/users'')],
             ODict [(PStr ''token'', PStr ''abc123'')]]
            (length (snd out)) [] out2 (Inr [(JStr ''GET'', ''https://api/abc123/users'')]))"
proof -
  let ?st = "[OList [PRef 1],
        ODict [(PStr ''request'', PRef 2)],
        ODict [(PStr ''method'', PStr ''GET''), (PStr ''url'', PRef 3)],
        ODict [(PStr ''raw'', PStr ''https://api/{{token}}/users'')],
        ODict [(PStr ''token'', PStr ''abc123'')]]"
  let ?j = "JArr [JObj [(''request'', JObj [(''method'', JStr ''GET''),
                                         (''url'', JObj [(''raw'', JStr ''https://api/{{token}}/users'')])])]]"
  let ?e = "[(JStr ''token'', JStr ''abc123'')]"
  have r: "rep ?st (PRef 0) ?j"
    by (rule rep_list [where vs = "[PRef 1]"], simp, simp, simp,
        rule rep_dict [where kvs = "[(PStr ''request'', PRef 2)]"], simp, simp, simp,
        rule rep_dict [where kvs = "[(PStr ''method'', PStr ''GET''), (PStr ''url'', PRef 3)]"],
        simp, simp, simp add: rep_str,
        rule rep_dict [where kvs = "[(PStr ''raw'', PStr ''https://api/{{token}}/users'')]"],
        simp, simp, simp add: rep_str)
  have e: "env_rep ?st (PRef 4) ?e"
    by (simp add: env_rep_def rep_str)
  have p: "find_and_process_items ?j ?e = Inr [(JStr ''GET'', ''https://api/abc123/users'')]"
    by (simp add: try_request_def extract_request_def resolve_url_def brace_def py_eq_def)
  have run: "find_and_process_items_st 3 (PRef 0) (PRef 4) ?st
     = Some (Inr (PRef 5), ?st @
        [OList [PTuple (PStr ''GET'') (PStr ''https://api/abc123/users'')],
        OList [PTuple (PStr ''GET'') (PStr ''https://api/abc123/users'')]])"
    by (simp add: find_and_process_items_st.simps process_list_st.simps eval_nat_numeral
        Let_def view_def item_part_st_def request_part_st_def extract_request_st_def
        list_extend_def list_append_def brace_def)
  from find_and_process_items_st_pure [OF r e, unfolded p]
  have ex: "\<exists>n out out2.
         find_and_process_items_st n (PRef 0) (PRef 4) ?st = Some out
       \<and> find_and_process_items_st n (PRef 0) (PRef 4) (snd out) = Some out2
       \<and> result_rep ?st (length (snd out)) [] out2 (Inr [(JStr ''GET'', ''https://api/abc123/users'')])"
    by blast
  from run have run': "find_and_process_items_st 3 (PRef 0) (PRef 4) ?st
     = Some (Inr (PRef 5),
       [OList [PRef 1],
        ODict [(PStr ''request'', PRef 2)],
        ODict [(PStr ''method'', PStr ''GET''), (PStr ''url'', PRef 3)],
        ODict [(PStr ''raw'', PStr ''https://api/{{token}}/users'')],
        ODict [(PStr ''token'', PStr ''abc123'')],
        OList [PTuple (PStr ''GET'') (PStr ''https://api/abc123/users'')],
        OList [PTuple (PStr ''GET'') (PStr ''https://api/abc123/users'')]])"
    by simp
  show ?thesis
    by (intro conjI) (rule r, rule e, rule run', rule ex)
qed

end
